theory Spec2Isabelle
  imports Main "HOL-Library.AList"
begin

chapter \<open>The embedding\<close>

section \<open>JavaScript values\<close>

text \<open>
  The component works on data parsed from JSON and kept in the Redux store. A value is
  one of the JSON shapes, \<open>undefined\<close>, or a function, which is opaque here and known by
  its name only. Objects are association lists in insertion order. Numbers are integers;
  fractional numbers and \<open>NaN\<close> are outside the model.
\<close>

datatype jsval =
    JUndefined
  | JNull
  | JBool bool
  | JNum int
  | JStr string
  | JArr "jsval list"
  | JObj "(string \<times> jsval) list"
  | JFun string

datatype error = TypeError | RangeError

type_synonym object = "(string \<times> jsval) list"

definition andThen :: "error + 'a \<Rightarrow> ('a \<Rightarrow> error + 'b) \<Rightarrow> error + 'b" where
  "andThen r f = (case r of Inl e \<Rightarrow> Inl e | Inr x \<Rightarrow> f x)"

text \<open>\<open>!v\<close> is true for exactly the falsy values.\<close>

fun truthy :: "jsval \<Rightarrow> bool" where
  "truthy JUndefined = False"
| "truthy JNull = False"
| "truthy (JBool b) = b"
| "truthy (JNum n) = (n \<noteq> 0)"
| "truthy (JStr s) = (s \<noteq> [])"
| "truthy (JArr xs) = True"
| "truthy (JObj kvs) = True"
| "truthy (JFun f) = True"

text \<open>
  \<open>a === b\<close>. Primitives compare by value. Two arrays or two objects compare by
  identity; the values compared in this component come from separately parsed parts of
  the response, so they are never the same object.
\<close>

fun strict_eq :: "jsval \<Rightarrow> jsval \<Rightarrow> bool" where
  "strict_eq (JArr xs) b = False"
| "strict_eq (JObj kvs) b = False"
| "strict_eq a b = (a = b)"

definition digits :: string where
  "digits = ''0123456789''"

function string_of_nat :: "nat \<Rightarrow> string" where
  "string_of_nat n =
     (if n < 10 then [digits ! n] else string_of_nat (n div 10) @ [digits ! (n mod 10)])"
  by pat_completeness auto
termination
  by (relation "measure id") auto

declare string_of_nat.simps [simp del]

definition string_of_int :: "int \<Rightarrow> string" where
  "string_of_int i = (if i < 0 then CHR ''-'' # string_of_nat (nat (- i)) else string_of_nat (nat i))"

fun join :: "string \<Rightarrow> string list \<Rightarrow> string" where
  "join sep [] = []"
| "join sep [x] = x"
| "join sep (x # y # ys) = x @ sep @ join sep (y # ys)"

text \<open>The string a value becomes when it is used as a property key.\<close>

fun to_key :: "jsval \<Rightarrow> string" where
  "to_key JUndefined = ''undefined''"
| "to_key JNull = ''null''"
| "to_key (JBool b) = (if b then ''true'' else ''false'')"
| "to_key (JNum n) = string_of_int n"
| "to_key (JStr s) = s"
| "to_key (JArr xs) =
     join '','' (map (\<lambda>x. if x = JNull \<or> x = JUndefined then [] else to_key x) xs)"
| "to_key (JObj kvs) = ''[object Object]''"
| "to_key (JFun f) = f"

text \<open>The own enumerable properties of a value, in enumeration order.\<close>

definition indexed :: "jsval list \<Rightarrow> object" where
  "indexed xs = map (\<lambda>i. (string_of_nat i, xs ! i)) [0..<length xs]"

fun own_props :: "jsval \<Rightarrow> object" where
  "own_props (JObj kvs) = kvs"
| "own_props (JArr xs) = indexed xs"
| "own_props (JStr s) = indexed (map (\<lambda>c. JStr [c]) s)"
| "own_props v = []"

definition obj_get :: "object \<Rightarrow> string \<Rightarrow> jsval" where
  "obj_get kvs k = (case map_of kvs k of None \<Rightarrow> JUndefined | Some v \<Rightarrow> v)"

text \<open>
  \<open>v[k]\<close> for a receiver that is neither \<open>null\<close> nor \<open>undefined\<close>: an own property, the
  \<open>length\<close> of an array or a string, and \<open>undefined\<close> otherwise.
\<close>

fun getprop :: "jsval \<Rightarrow> string \<Rightarrow> jsval" where
  "getprop (JObj kvs) k = obj_get kvs k"
| "getprop (JArr xs) k =
     (if k = ''length'' then JNum (int (length xs)) else obj_get (indexed xs) k)"
| "getprop (JStr s) k =
     (if k = ''length'' then JNum (int (length s)) else obj_get (indexed (map (\<lambda>c. JStr [c]) s)) k)"
| "getprop v k = JUndefined"

text \<open>\<open>v.k\<close>: reading a property of \<open>null\<close> or \<open>undefined\<close> throws.\<close>

definition get :: "jsval \<Rightarrow> string \<Rightarrow> error + jsval" where
  "get v k = (if v = JNull \<or> v = JUndefined then Inl TypeError else Inr (getprop v k))"

text \<open>\<open>Object.assign(target, source)\<close> on the property lists.\<close>

definition object_assign :: "object \<Rightarrow> object \<Rightarrow> object" where
  "object_assign target source = foldl (\<lambda>t (k, v). AList.update k v t) target source"

section \<open>The component registry and rendered nodes\<close>

text \<open>
  \<open>lib/Injector\<close> is not part of this file; its two lookups are parameters. A lookup
  returns a component (a function) or whatever the registry answers for an unknown key;
  \<open>mapFieldsToComponents\<close> tests the answer against \<open>null\<close>.
\<close>

record injector =
  getComponentByName :: "jsval \<Rightarrow> jsval"
  getComponentByDataType :: "jsval \<Rightarrow> jsval"

text \<open>
  What a mapping callback returns: \<open>null\<close>, a React element (component, properties), or
  the result of the caller's \<open>createFn\<close>.
\<close>

datatype 'r node = NullNode | Element jsval object | Created 'r

section \<open>mapFieldsToComponents\<close>

definition field_component :: "injector \<Rightarrow> jsval \<Rightarrow> error + jsval" where
  "field_component reg field =
     andThen (get field ''component'') (\<lambda>c.
       if \<not> strict_eq c JNull then Inr (getComponentByName reg c)
       else andThen (get field ''type'') (\<lambda>t. Inr (getComponentByDataType reg t)))"

definition field_node ::
  "injector \<Rightarrow> (jsval \<Rightarrow> jsval \<Rightarrow> 'r) option \<Rightarrow> jsval \<Rightarrow> nat \<Rightarrow> error + 'r node" where
  "field_node reg createFn field i =
     andThen (field_component reg field) (\<lambda>Component.
       if strict_eq Component JNull then Inr NullNode
       else
         let props = object_assign (object_assign [] (own_props field))
                       [(''onChange'', JFun ''handleFieldUpdate'')]
         in case createFn of
              Some f \<Rightarrow> Inr (Created (f Component (JObj props)))
            | None \<Rightarrow> Inr (Element Component (object_assign [(''key'', JNum (int i))] props)))"

text \<open>\<open>fields.map((field, i) => ...)\<close>; the first callback that throws ends the map.\<close>

fun map_indexed :: "('a \<Rightarrow> nat \<Rightarrow> error + 'b) \<Rightarrow> nat \<Rightarrow> 'a list \<Rightarrow> error + 'b list" where
  "map_indexed f i [] = Inr []"
| "map_indexed f i (x # xs) =
     andThen (f x i) (\<lambda>y. andThen (map_indexed f (Suc i) xs) (\<lambda>ys. Inr (y # ys)))"

definition mapFieldsToComponents ::
  "injector \<Rightarrow> (jsval \<Rightarrow> jsval \<Rightarrow> 'r) option \<Rightarrow> jsval list \<Rightarrow> error + 'r node list" where
  "mapFieldsToComponents reg createFn fieldList =
     map_indexed (field_node reg createFn) 0 fieldList"


section \<open>The component: properties, instance fields and effects\<close>

text \<open>
  \<open>this.props\<close>: the data the component reads. The caller's optional callbacks
  (\<open>createFn\<close>, \<open>handleSubmit\<close>) are passed to the functions that use them.
\<close>

record props =
  config :: jsval
  form :: object
  schemas :: object
  schemaUrl :: string

text \<open>What \<open>backend.createEndpointFetcher\<close> is called with; it stands for the fetcher.\<close>

record endpoint =
  url :: jsval
  httpMethod :: jsval
  defaultData :: object

text \<open>The instance fields set by the constructor and by \<open>fetch\<close>.\<close>

record component =
  isFetching :: bool
  formSchemaPromise :: "nat option"
  submitApi :: "endpoint option"

definition constructor :: component where
  "constructor = \<lparr> isFetching = False, formSchemaPromise = None, submitApi = None \<rparr>"

text \<open>
  Calls that leave the component: the bound action creators of the store and
  \<open>event.preventDefault()\<close>.
\<close>

datatype effect =
    SetSchema jsval
  | AddForm jsval
  | RemoveForm jsval
  | UpdateField jsval jsval
  | SubmitForm "endpoint option" jsval jsval
  | PreventDefault

definition getFormSchema :: "props \<Rightarrow> jsval" where
  "getFormSchema p = obj_get (schemas p) (schemaUrl p)"

definition getFormId :: "props \<Rightarrow> jsval" where
  "getFormId p =
     (let schema = getFormSchema p in
      if truthy schema then getprop schema ''id'' else JNull)"

section \<open>fetch\<close>

text \<open>
  A request is the URL and the value of the \<open>X-FormSchema-Request\<close> header. The promise
  a call of \<open>fetch\<close> creates is known by the number of the request it belongs to.
\<close>

type_synonym request = "string \<times> string"

definition fetch ::
  "props \<Rightarrow> bool \<Rightarrow> bool \<Rightarrow> component \<times> request list \<Rightarrow> nat option \<times> component \<times> request list" where
  "fetch p schema state cr =
     (let (c, reqs) = cr in
      if isFetching c = True then (formSchemaPromise c, c, reqs)
      else
        let headerValues = (if schema = True then [''schema''] else [])
                           @ (if state = True then [''state''] else []);
            promise = length reqs;
            c' = c\<lparr> formSchemaPromise := Some promise \<rparr>
        in (formSchemaPromise c', c', reqs @ [(schemaUrl p, join '','' headerValues)]))"

definition componentDidMount ::
  "props \<Rightarrow> component \<times> request list \<Rightarrow> component \<times> request list" where
  "componentDidMount p cr = snd (fetch p True True cr)"

text \<open>
  \<open>v > 0\<close>. The number a string stands for is not modelled: \<open>str_gt0\<close> says whether it is
  positive.
\<close>

fun gt_zero :: "(string \<Rightarrow> bool) \<Rightarrow> jsval \<Rightarrow> bool" where
  "gt_zero str_gt0 (JNum n) = (0 < n)"
| "gt_zero str_gt0 (JBool b) = b"
| "gt_zero str_gt0 (JStr s) = str_gt0 s"
| "gt_zero str_gt0 (JArr xs) = str_gt0 (to_key (JArr xs))"
| "gt_zero str_gt0 v = False"

text \<open>\<open>v[i]\<close> for a number \<open>i\<close> and a receiver that is neither \<open>null\<close> nor \<open>undefined\<close>.\<close>

fun getindex :: "jsval \<Rightarrow> nat \<Rightarrow> jsval" where
  "getindex (JArr xs) i = (if i < length xs then xs ! i else JUndefined)"
| "getindex (JStr s) i = (if i < length s then JStr [s ! i] else JUndefined)"
| "getindex (JObj kvs) i = obj_get kvs (string_of_nat i)"
| "getindex v i = JUndefined"

text \<open>
  The callback of \<open>fetch\<close> that receives the parsed response: the new value of
  \<open>this.submitApi\<close> (when it is assigned) and the actions dispatched, in order.
  \<open>publish_schema\<close> is the body of its first \<open>if\<close>.
\<close>

definition publish_schema ::
  "(string \<Rightarrow> bool) \<Rightarrow> props \<Rightarrow> object \<Rightarrow> error + (endpoint \<times> effect list)" where
  "publish_schema str_gt0 p formSchema =
     andThen (get (config p) ''SecurityID'') (\<lambda>sid.
     andThen (get (obj_get formSchema ''schema'') ''actions'') (\<lambda>actions.
     andThen (get actions ''length'') (\<lambda>len.
     andThen
       (if gt_zero str_gt0 len then
          andThen (get (getindex actions 0) ''name'') (\<lambda>name.
            Inr (AList.update (to_key name) (JNum 1) [(''SecurityID'', sid)]))
        else Inr [(''SecurityID'', sid)]) (\<lambda>defaultData.
     andThen (get (obj_get formSchema ''schema'') ''attributes'') (\<lambda>attrs.
     andThen (get attrs ''action'') (\<lambda>action.
     andThen (get attrs ''method'') (\<lambda>meth.
       Inr (\<lparr> url = action, httpMethod = meth, defaultData = defaultData \<rparr>,
            [SetSchema (JObj formSchema)]))))))))"

definition on_json ::
  "(string \<Rightarrow> bool) \<Rightarrow> props \<Rightarrow> jsval \<Rightarrow> error + (endpoint option \<times> effect list)" where
  "on_json str_gt0 p json =
     andThen (get json ''id'') (\<lambda>jid.
     andThen (get json ''schema'') (\<lambda>jschema.
     andThen (get json ''state'') (\<lambda>jstate.
       let formSchema = object_assign [] [(''id'', jid), (''schema'', jschema)];
           formState = object_assign [] (own_props jstate)
       in
         andThen
           (if obj_get formSchema ''id'' \<noteq> JUndefined then
              andThen (publish_schema str_gt0 p formSchema) (\<lambda>(api, dispatched).
                Inr (Some api, dispatched))
            else Inr (None, []))
           (\<lambda>(api, dispatched).
              if obj_get formState ''id'' \<noteq> JUndefined
              then Inr (api, dispatched @ [AddForm (JObj formState)])
              else Inr (api, dispatched)))))"

section \<open>handleFieldUpdate and handleSubmit\<close>

text \<open>The bound action creator \<open>formActions.updateField\<close>.\<close>

definition updateField :: "jsval \<Rightarrow> jsval \<Rightarrow> effect list" where
  "updateField formId updates = [UpdateField formId updates]"

text \<open>
  The optional third argument receives the form identifier and the update action and
  answers with the calls it makes.
\<close>

definition handleFieldUpdate ::
  "props \<Rightarrow> 'ev \<Rightarrow> jsval \<Rightarrow> (jsval \<Rightarrow> (jsval \<Rightarrow> jsval \<Rightarrow> effect list) \<Rightarrow> effect list) option
     \<Rightarrow> effect list" where
  "handleFieldUpdate p event updates fn =
     (case fn of
        Some f \<Rightarrow> f (getFormId p) updateField
      | None \<Rightarrow> updateField (getFormId p) updates)"

text \<open>\<open>schemaFields.find(schemaField => schemaField.id === curr.id)\<close>\<close>

fun find_by_id :: "jsval list \<Rightarrow> jsval \<Rightarrow> error + jsval" where
  "find_by_id [] cur = Inr JUndefined"
| "find_by_id (schemaField # rest) cur =
     andThen (get schemaField ''id'') (\<lambda>a.
     andThen (get cur ''id'') (\<lambda>b.
       if strict_eq a b then Inr schemaField else find_by_id rest cur))"

text \<open>The callback of \<open>reduce\<close>: one state field added to the values collected so far.\<close>

definition add_field_value :: "jsval \<Rightarrow> object \<Rightarrow> jsval \<Rightarrow> error + object" where
  "add_field_value schemaFields prev cur =
     andThen (case schemaFields of JArr sfs \<Rightarrow> find_by_id sfs cur | _ \<Rightarrow> Inl TypeError)
       (\<lambda>found.
     andThen (get found ''name'') (\<lambda>name.
     andThen (get cur ''value'') (\<lambda>v.
       Inr (object_assign (object_assign [] prev) [(to_key name, v)]))))"

fun reduce :: "('b \<Rightarrow> 'a \<Rightarrow> error + 'b) \<Rightarrow> 'a list \<Rightarrow> 'b \<Rightarrow> error + 'b" where
  "reduce f [] acc = Inr acc"
| "reduce f (x # xs) acc = andThen (f acc x) (reduce f xs)"

definition fieldValues :: "props \<Rightarrow> error + object" where
  "fieldValues p =
     andThen (get (obj_get (schemas p) (schemaUrl p)) ''schema'') (\<lambda>schema.
     andThen (get schema ''fields'') (\<lambda>schemaFields.
     andThen (get (obj_get (form p) (to_key (getFormId p))) ''fields'') (\<lambda>stateFields.
       case stateFields of
         JArr curs \<Rightarrow> reduce (add_field_value schemaFields) curs []
       | _ \<Rightarrow> Inl TypeError)))"

text \<open>
  The caller's \<open>handleSubmit\<close> property receives the event, the values and the calls
  that \<open>submitFn\<close> makes when invoked, and answers with the calls it makes.
\<close>

definition handleSubmit ::
  "props \<Rightarrow> component \<Rightarrow> ('ev \<Rightarrow> jsval \<Rightarrow> effect list \<Rightarrow> effect list) option \<Rightarrow> 'ev
     \<Rightarrow> error + effect list" where
  "handleSubmit p c handler event =
     andThen (fieldValues p) (\<lambda>values.
       let submitFn = [SubmitForm (submitApi c) (getFormId p) (JObj values)] in
       case handler of
         Some h \<Rightarrow> Inr (h event (JObj values) submitFn)
       | None \<Rightarrow> Inr (PreventDefault # submitFn))"

section \<open>mapActionsToComponents\<close>

text \<open>Freezing an object does not change its value.\<close>

definition deepFreeze :: "jsval \<Rightarrow> jsval" where
  "deepFreeze v = v"

definition action_props :: "jsval \<Rightarrow> jsval \<Rightarrow> error + jsval" where
  "action_props formState action =
     (let props = deepFreeze action in
      andThen (get props ''name'') (\<lambda>name.
        if strict_eq name (JStr ''action_save'') then
          andThen (get props ''title'') (\<lambda>title.
          andThen (if formState \<noteq> JUndefined then get formState ''submitting''
                   else Inr (JBool False)) (\<lambda>loading.
            Inr (deepFreeze (JObj (object_assign
                   (object_assign []
                      [(''type'', JStr ''submit''),
                       (''label'', title),
                       (''icon'', JStr ''save''),
                       (''loading'', loading),
                       (''bootstrapButtonStyle'', JStr ''primary'')])
                   (own_props props))))))
        else if strict_eq name (JStr ''action_cancel'') then
          andThen (get props ''title'') (\<lambda>title.
            Inr (deepFreeze (JObj (object_assign
                   (object_assign []
                      [(''type'', JStr ''button''),
                       (''label'', title)])
                   (own_props props)))))
        else Inr props))"

definition action_node ::
  "jsval \<Rightarrow> (jsval \<Rightarrow> jsval \<Rightarrow> 'r) option \<Rightarrow> jsval \<Rightarrow> nat \<Rightarrow> error + 'r node" where
  "action_node formState createFn action i =
     andThen (action_props formState action) (\<lambda>props.
       case createFn of
         Some f \<Rightarrow> Inr (Created (f (JFun ''FormAction'') props))
       | None \<Rightarrow> Inr (Element (JFun ''FormAction'')
                        (object_assign [(''key'', JNum (int i))] (own_props props))))"

definition mapActionsToComponents ::
  "props \<Rightarrow> (jsval \<Rightarrow> jsval \<Rightarrow> 'r) option \<Rightarrow> jsval list \<Rightarrow> error + 'r node list" where
  "mapActionsToComponents p createFn actions =
     (let formState = obj_get (form p) (to_key (getFormId p)) in
      map_indexed (action_node formState createFn) 0 actions)"

section \<open>The merge package, by value\<close>

text \<open>
  Modelled from the spec: the \<open>merge\<close> package that \<open>mergeFieldData\<close> calls is an npm
  dependency and not part of the sources. The specification calls its \<open>recursive\<close>
  function a deep merge in which the later argument wins; the definitions below follow
  the package's functions \<open>typeOf\<close>, \<open>clone\<close>, \<open>merge_recursive\<close>, \<open>merge\<close> and
  \<open>recursive\<close> (version 1.2). They give the value of the result; which objects are
  written is the subject of the store model further down.
\<close>

fun typeOf :: "jsval \<Rightarrow> string" where
  "typeOf JUndefined = ''undefined''"
| "typeOf JNull = ''null''"
| "typeOf (JBool b) = ''boolean''"
| "typeOf (JNum n) = ''number''"
| "typeOf (JStr s) = ''string''"
| "typeOf (JArr xs) = ''array''"
| "typeOf (JObj kvs) = ''object''"
| "typeOf (JFun f) = ''function''"

text \<open>A deep copy of arrays and plain objects; anything else is returned as it is.\<close>

fun clone :: "jsval \<Rightarrow> jsval" where
  "clone (JArr xs) = JArr (map clone xs)"
| "clone (JObj kvs) = JObj (map (\<lambda>kv. (fst kv, clone (snd kv))) kvs)"
| "clone v = v"

text \<open>
  \<open>merge_recursive(base, extend)\<close>: a base that is not a plain object is replaced by
  \<open>extend\<close>; otherwise every enumerable property of \<open>extend\<close> is merged into the base when
  both sides hold plain objects under its key, and assigned to the base when not.
\<close>

function merge_recursive :: "jsval \<Rightarrow> jsval \<Rightarrow> jsval" where
  "merge_recursive base ext =
     (case base of
        JObj bkvs \<Rightarrow>
          JObj (foldl
                  (\<lambda>b kv.
                     AList.update (fst kv)
                       (if typeOf (obj_get b (fst kv)) = ''object'' \<and> typeOf (snd kv) = ''object''
                        then merge_recursive (obj_get b (fst kv)) (snd kv)
                        else snd kv) b)
                  bkvs (own_props ext))
      | _ \<Rightarrow> ext)"
  by pat_completeness auto
termination
proof (relation "measure (\<lambda>(base, ext). size ext)")
  show "wf (measure (\<lambda>(base, ext). size ext))" by simp
next
  fix base ext :: jsval and bkvs b :: object and kv :: "string \<times> jsval"
  assume "base = JObj bkvs" and kv: "kv \<in> set (own_props ext)"
    and both: "typeOf (obj_get b (fst kv)) = ''object'' \<and> typeOf (snd kv) = ''object''"
  from both have ty: "typeOf (snd kv) = ''object''" by simp
  have "size (snd kv) < size ext"
  proof (cases ext)
    case (JObj kvs)
    with kv have "kv \<in> set kvs" by simp
    moreover have "size (snd kv) \<le> size_prod (\<lambda>_. 0) size kv" by (cases kv) simp
    ultimately have "size (snd kv) \<le> size_list (size_prod (\<lambda>_. 0) size) kvs"
      by (rule size_list_estimation')
    with JObj show ?thesis by simp
  next
    case (JArr xs)
    with kv obtain i where "i < length xs" "snd kv = xs ! i"
      by (auto simp add: indexed_def)
    then have "snd kv \<in> set xs" by simp
    then have "size (snd kv) \<le> size_list size xs"
      by (rule size_list_estimation') simp
    with JArr show ?thesis by simp
  next
    case (JStr s)
    with kv ty show ?thesis by (auto simp add: indexed_def)
  qed (use kv in simp_all)
  then show "((obj_get b (fst kv), snd kv), (base, ext)) \<in> measure (\<lambda>(base, ext). size ext)"
    by simp
qed

declare merge_recursive.simps [simp del]

text \<open>
  \<open>merge(clone, recursive, argv)\<close>: the result starts as a new object (in clone mode, or
  when the first argument is not a plain object) and takes, argument by argument, every
  property of every argument that is a plain object.
\<close>

definition merge_lib :: "bool \<Rightarrow> bool \<Rightarrow> jsval list \<Rightarrow> jsval" where
  "merge_lib cloneMode recursiveMode argv =
     (let result = (case argv of
                      [] \<Rightarrow> []
                    | first # _ \<Rightarrow>
                        if cloneMode \<or> typeOf first \<noteq> ''object'' then [] else own_props first)
      in JObj (foldl
                 (\<lambda>result item.
                    if typeOf item \<noteq> ''object'' then result
                    else foldl
                           (\<lambda>result kv.
                              let sitem = (if cloneMode then clone (snd kv) else snd kv) in
                              AList.update (fst kv)
                                (if recursiveMode
                                 then merge_recursive (obj_get result (fst kv)) sitem
                                 else sitem) result)
                           result (own_props item))
                 result argv))"

text \<open>\<open>merge.recursive(clone, ...)\<close>: the clone flag is itself the first argument.\<close>

definition recursive :: "jsval \<Rightarrow> jsval list \<Rightarrow> jsval" where
  "recursive cloneFlag args = merge_lib (strict_eq cloneFlag (JBool True)) True (cloneFlag # args)"

section \<open>mergeFieldData and render\<close>

definition mergeFieldData :: "jsval \<Rightarrow> jsval \<Rightarrow> error + jsval" where
  "mergeFieldData structure state =
     andThen (get state ''data'') (\<lambda>d.
     andThen (get state ''messages'') (\<lambda>m.
     andThen (get state ''valid'') (\<lambda>v.
     andThen (get state ''value'') (\<lambda>vl.
       Inr (recursive (JBool True)
              [structure,
               JObj [(''data'', d), (''messages'', m), (''valid'', v), (''value'', vl)]])))))"

text \<open>
  \<open>render\<close> returns \<open>null\<close> or the \<open>Form\<close> element with its properties; the handlers among
  the properties are known by name.
\<close>

definition render :: "props \<Rightarrow> error + unit node" where
  "render p =
     (let formId = getFormId p in
      if \<not> truthy formId then Inr NullNode
      else
        let formSchema = getFormSchema p;
            formState = obj_get (form p) (to_key formId)
        in
          if \<not> truthy formSchema then Inr NullNode
          else
            andThen (get formSchema ''schema'') (\<lambda>schema.
            andThen (get schema ''attributes'') (\<lambda>attrs.
            andThen (get attrs ''class'') (\<lambda>cls.
            andThen (get attrs ''enctype'') (\<lambda>enc.
              let attributes =
                    object_assign (object_assign [] (own_props attrs))
                      [(''class'', JNull), (''className'', cls),
                       (''enctype'', JNull), (''encType'', enc)]
              in
                andThen
                  (if truthy schema \<and> truthy formState \<and> truthy (getprop formState ''fields'')
                   then
                     andThen (get schema ''fields'') (\<lambda>schemaFields.
                       case schemaFields of
                         JArr fs \<Rightarrow>
                           andThen
                             (map_indexed
                                (\<lambda>f i. mergeFieldData f (getindex (getprop formState ''fields'') i))
                                0 fs)
                             (\<lambda>merged. Inr (JArr merged))
                       | _ \<Rightarrow> Inl TypeError)
                   else get schema ''fields'')
                  (\<lambda>fieldData.
                     Inr (Element (JFun ''Form'')
                            [(''actions'', getprop schema ''actions''),
                             (''attributes'', JObj attributes),
                             (''componentWillUnmount'', JFun ''removeForm''),
                             (''data'', getprop schema ''data''),
                             (''fields'', fieldData),
                             (''formId'', formId),
                             (''handleSubmit'', JFun ''handleSubmit''),
                             (''mapActionsToComponents'', JFun ''mapActionsToComponents''),
                             (''mapFieldsToComponents'', JFun ''mapFieldsToComponents'')])))))))"

text \<open>A small registry and field list used to run the definitions.\<close>

definition demo_reg :: injector where
  "demo_reg =
     \<lparr> getComponentByName =
         (\<lambda>n. if n = JStr ''TextField'' then JFun ''TextField'' else JNull),
       getComponentByDataType =
         (\<lambda>t. if t = JStr ''Text'' then JFun ''TextField'' else JNull) \<rparr>"

definition demo_fields :: "jsval list" where
  "demo_fields =
     [JObj [(''id'', JNum 1), (''component'', JNull), (''type'', JStr ''Text'')],
      JObj [(''id'', JNum 2), (''component'', JStr ''Nope''), (''type'', JStr ''Text'')],
      JObj [(''id'', JNum 3), (''component'', JStr ''TextField''), (''type'', JStr ''Custom'')]]"

definition resolved :: "injector \<Rightarrow> jsval \<Rightarrow> jsval" where
  "resolved reg f =
     (if getprop f ''component'' \<noteq> JNull then getComponentByName reg (getprop f ''component'')
      else getComponentByDataType reg (getprop f ''type''))"

definition demo_props :: props where
  "demo_props =
     \<lparr> config = JObj [(''SecurityID'', JStr ''tok'')],
       form = [],
       schemas = [],
       schemaUrl = ''admin/schema'' \<rparr>"

definition demo_response_no_id :: jsval where
  "demo_response_no_id =
     JObj [(''schema'', JObj [(''actions'', JArr [])]),
           (''state'', JObj [(''id'', JStr ''f1''), (''fields'', JArr [])])]"

definition demo_actions :: "jsval list" where
  "demo_actions =
     [JObj [(''name'', JStr ''action_save''), (''title'', JStr ''Save''), (''icon'', JStr ''disk'')],
      JObj [(''name'', JStr ''action_cancel''), (''title'', JStr ''Cancel'')],
      JObj [(''name'', JStr ''action_export''), (''title'', JStr ''Export'')]]"

section \<open>The submit payload, as specified\<close>

text \<open>
  The payload in the words of the specification: every state field, in order, paired
  with the name of the first schema field that has its id.
\<close>

definition name_by_id :: "jsval list \<Rightarrow> jsval \<Rightarrow> string option" where
  "name_by_id schemaFields i =
     map_option (\<lambda>sf. to_key (getprop sf ''name''))
       (find (\<lambda>sf. strict_eq (getprop sf ''id'') i) schemaFields)"

definition payload_spec :: "jsval list \<Rightarrow> jsval list \<Rightarrow> object" where
  "payload_spec schemaFields stateFields =
     concat (map (\<lambda>cur. case name_by_id schemaFields (getprop cur ''id'') of
                           Some n \<Rightarrow> [(n, getprop cur ''value'')]
                         | None \<Rightarrow> []) stateFields)"

definition demo_submit_props :: props where
  "demo_submit_props =
     \<lparr> config = JObj [(''SecurityID'', JStr ''tok'')],
       form = [(''form1'', JObj [(''id'', JStr ''form1''),
                 (''fields'', JArr [JObj [(''id'', JNum 1), (''value'', JStr ''Hello'')],
                                    JObj [(''id'', JNum 2), (''value'', JStr ''World'')]])])],
       schemas = [(''admin/schema'', JObj [(''id'', JStr ''form1''),
                 (''schema'', JObj [
                    (''fields'', JArr [JObj [(''id'', JNum 1), (''name'', JStr ''Title'')],
                                       JObj [(''id'', JNum 2), (''name'', JStr ''Content'')]])])])],
       schemaUrl = ''admin/schema'' \<rparr>"

section \<open>Properties of a merged field\<close>

text \<open>One step of the two loops of the merge package, named for the proofs.\<close>

definition merge_step :: "object \<Rightarrow> string \<times> jsval \<Rightarrow> object" where
  "merge_step result kv =
     AList.update (fst kv) (merge_recursive (obj_get result (fst kv)) (snd kv)) result"

definition assign_step :: "object \<Rightarrow> string \<times> jsval \<Rightarrow> object" where
  "assign_step b kv =
     AList.update (fst kv)
       (if typeOf (obj_get b (fst kv)) = ''object'' \<and> typeOf (snd kv) = ''object''
        then merge_recursive (obj_get b (fst kv)) (snd kv)
        else snd kv) b"

text \<open>Every object inside the value has distinct keys, as a parsed object has.\<close>

fun wf_val :: "jsval \<Rightarrow> bool" where
  "wf_val (JObj kvs) = (distinct (map fst kvs) \<and> (\<forall>kv \<in> set kvs. wf_val (snd kv)))"
| "wf_val (JArr xs) = (\<forall>x \<in> set xs. wf_val x)"
| "wf_val v = True"

text \<open>
  \<open>covers r e\<close>: whatever \<open>e\<close> holds, \<open>r\<close> holds at the same place. For a plain object \<open>e\<close>
  this is asked of every property of \<open>e\<close> in turn; for any other \<open>e\<close> it is \<open>r = e\<close>.
\<close>

fun covers :: "jsval \<Rightarrow> jsval \<Rightarrow> bool" where
  "covers r (JObj ekvs) =
     (typeOf r = ''object'' \<and> (\<forall>kv \<in> set ekvs. covers (getprop r (fst kv)) (snd kv)))"
| "covers r e = (r = e)"

text \<open>
  What \<open>mergeFieldData\<close> makes of a structural field and a state entry: the entry has the
  structural keys and the four keys \<open>data\<close>, \<open>messages\<close>, \<open>valid\<close> and \<open>value\<close>; any other
  key keeps its structural value; under each of the four keys stands the recursive merge
  of the state's value into the structural one, which is the state's value when the
  structural one is not a plain object, and which covers the state's value when that is
  a plain object.
\<close>

definition merged_entry :: "jsval \<Rightarrow> jsval \<Rightarrow> jsval \<Rightarrow> bool" where
  "merged_entry structure state entry =
     (typeOf entry = ''object''
      \<and> set (map fst (own_props entry))
          = set (map fst (own_props structure)) \<union> {''data'', ''messages'', ''valid'', ''value''}
      \<and> (\<forall>k. k \<notin> {''data'', ''messages'', ''valid'', ''value''} \<longrightarrow>
             getprop entry k = getprop structure k)
      \<and> (\<forall>k \<in> {''data'', ''messages'', ''valid'', ''value''}.
             getprop entry k = merge_recursive (getprop structure k) (getprop state k)
             \<and> (typeOf (getprop structure k) \<noteq> ''object'' \<longrightarrow>
                  getprop entry k = getprop state k)
             \<and> (typeOf (getprop state k) = ''object'' \<and> wf_val (getprop state k) \<longrightarrow>
                  covers (getprop entry k) (getprop state k))))"

text \<open>The \<open>fields\<close> property of the rendered form.\<close>

definition rendered_fields :: "props \<Rightarrow> jsval" where
  "rendered_fields p =
     (case render p of Inr (Element c ps) \<Rightarrow> obj_get ps ''fields'' | _ \<Rightarrow> JUndefined)"

definition demo_render_props :: props where
  "demo_render_props =
     \<lparr> config = JObj [(''SecurityID'', JStr ''tok'')],
       form = [(''form1'', JObj [(''id'', JStr ''form1''),
                 (''fields'',
                  JArr [JObj [(''id'', JNum 1), (''value'', JStr ''Hello''), (''extra'', JBool True)],
                        JObj [(''id'', JNum 2), (''value'', JStr ''World'')]])])],
       schemas = [(''admin/schema'', JObj [(''id'', JStr ''form1''),
                 (''schema'', JObj [
                    (''attributes'', JObj [(''class'', JStr ''cms''), (''action'', JStr ''/save'')]),
                    (''actions'', JArr []),
                    (''fields'', JArr [JObj [(''id'', JNum 1), (''name'', JStr ''Title'')],
                                       JObj [(''id'', JNum 2), (''name'', JStr ''Content'')]])])])],
       schemaUrl = ''admin/schema'' \<rparr>"

section \<open>The merge package, on a store\<close>

text \<open>
  Modelled from the spec: the same functions of the \<open>merge\<close> package once more, now with
  the objects they allocate and write made explicit, so that "unmodified" and "freshly
  built" can be stated. A store is the list of the objects allocated so far; the address
  of an object is its position; a value is a primitive or the address of an object. An
  array is an object flagged as such, with its elements under the keys \<open>0\<close>, \<open>1\<close>, ...
  The first argument of the recursive functions is the depth of calls still available:
  at depth \<open>0\<close> JavaScript raises a \<open>RangeError\<close> (stack exhausted), which is what cloning
  a cyclic object ends in. Every function returns the store it leaves, also when it
  raises.
\<close>

datatype hval = HUndefined | HNull | HBool bool | HNum int | HStr string | HRef nat

datatype hobj = PlainObject "(string \<times> hval) list" | ArrayObject "(string \<times> hval) list"

type_synonym store = "hobj list"

fun props_of :: "hobj \<Rightarrow> (string \<times> hval) list" where
  "props_of (PlainObject kvs) = kvs"
| "props_of (ArrayObject kvs) = kvs"

fun with_props :: "hobj \<Rightarrow> (string \<times> hval) list \<Rightarrow> hobj" where
  "with_props (PlainObject _) kvs = PlainObject kvs"
| "with_props (ArrayObject _) kvs = ArrayObject kvs"

fun is_plain :: "hobj \<Rightarrow> bool" where
  "is_plain (PlainObject kvs) = True"
| "is_plain (ArrayObject kvs) = False"

fun typeOf_st :: "store \<Rightarrow> hval \<Rightarrow> string" where
  "typeOf_st h HUndefined = ''undefined''"
| "typeOf_st h HNull = ''null''"
| "typeOf_st h (HBool b) = ''boolean''"
| "typeOf_st h (HNum n) = ''number''"
| "typeOf_st h (HStr s) = ''string''"
| "typeOf_st h (HRef a) =
     (if a < length h then (if is_plain (h ! a) then ''object'' else ''array'')
      else ''undefined'')"

text \<open>The enumerable properties \<open>for (key in v)\<close> runs through.\<close>

fun props_st :: "store \<Rightarrow> hval \<Rightarrow> (string \<times> hval) list" where
  "props_st h (HRef a) = (if a < length h then props_of (h ! a) else [])"
| "props_st h (HStr s) = map (\<lambda>i. (string_of_nat i, HStr [s ! i])) [0..<length s]"
| "props_st h v = []"

definition getprop_st :: "store \<Rightarrow> hval \<Rightarrow> string \<Rightarrow> hval" where
  "getprop_st h v k = (case map_of (props_st h v) k of None \<Rightarrow> HUndefined | Some x \<Rightarrow> x)"

text \<open>\<open>target[k] = v\<close>, for a target that is an object of the store.\<close>

fun setprop_st :: "store \<Rightarrow> hval \<Rightarrow> string \<Rightarrow> hval \<Rightarrow> store" where
  "setprop_st h (HRef a) k v =
     (if a < length h then h[a := with_props (h ! a) (AList.update k v (props_of (h ! a)))]
      else h)"
| "setprop_st h target k v = h"

text \<open>
  \<open>clone\<close>: \<open>clone_into\<close> is its loop, copying the properties of \<open>input\<close> still to be
  visited into \<open>output\<close>.
\<close>

fun clone_st :: "nat \<Rightarrow> hval \<Rightarrow> store \<Rightarrow> (error + hval) \<times> store"
  and clone_into :: "nat \<Rightarrow> hval \<Rightarrow> hval \<Rightarrow> string list \<Rightarrow> store \<Rightarrow> (error + hval) \<times> store" where
  "clone_st 0 input h = (Inl RangeError, h)"
| "clone_st (Suc n) input h =
     (if typeOf_st h input = ''array''
      then clone_into n input (HRef (length h)) (map fst (props_st h input))
             (h @ [ArrayObject []])
      else if typeOf_st h input = ''object''
      then clone_into n input (HRef (length h)) (map fst (props_st h input))
             (h @ [PlainObject []])
      else (Inr input, h))"
| "clone_into n input output [] h = (Inr output, h)"
| "clone_into n input output (index # rest) h =
     (case clone_st n (getprop_st h input index) h of
        (Inl e, h') \<Rightarrow> (Inl e, h')
      | (Inr v, h') \<Rightarrow> clone_into n input output rest (setprop_st h' output index v))"

text \<open>\<open>merge_recursive\<close>, with \<open>merge_into\<close> for its loop over the keys of \<open>ext\<close>.\<close>

fun merge_recursive_st :: "nat \<Rightarrow> hval \<Rightarrow> hval \<Rightarrow> store \<Rightarrow> (error + hval) \<times> store"
  and merge_into :: "nat \<Rightarrow> hval \<Rightarrow> hval \<Rightarrow> string list \<Rightarrow> store \<Rightarrow> (error + hval) \<times> store" where
  "merge_recursive_st 0 base ext h = (Inl RangeError, h)"
| "merge_recursive_st (Suc n) base ext h =
     (if typeOf_st h base \<noteq> ''object'' then (Inr ext, h)
      else merge_into n base ext (map fst (props_st h ext)) h)"
| "merge_into n base ext [] h = (Inr base, h)"
| "merge_into n base ext (key # rest) h =
     (if typeOf_st h (getprop_st h base key) = ''object''
         \<and> typeOf_st h (getprop_st h ext key) = ''object''
      then
        (case merge_recursive_st n (getprop_st h base key) (getprop_st h ext key) h of
           (Inl e, h') \<Rightarrow> (Inl e, h')
         | (Inr r, h') \<Rightarrow> merge_into n base ext rest (setprop_st h' base key r))
      else merge_into n base ext rest (setprop_st h base key (getprop_st h ext key)))"

text \<open>\<open>merge\<close>: the loop over the keys of one argument, and the loop over the arguments.\<close>

fun merge_keys ::
  "nat \<Rightarrow> bool \<Rightarrow> bool \<Rightarrow> hval \<Rightarrow> hval \<Rightarrow> string list \<Rightarrow> store \<Rightarrow> (error + hval) \<times> store" where
  "merge_keys n cloneMode recursiveMode result item [] h = (Inr result, h)"
| "merge_keys n cloneMode recursiveMode result item (key # rest) h =
     (case (if cloneMode then clone_st n (getprop_st h item key) h
            else (Inr (getprop_st h item key), h)) of
        (Inl e, h1) \<Rightarrow> (Inl e, h1)
      | (Inr sitem, h1) \<Rightarrow>
          (case (if recursiveMode
                 then merge_recursive_st n (getprop_st h1 result key) sitem h1
                 else (Inr sitem, h1)) of
             (Inl e, h2) \<Rightarrow> (Inl e, h2)
           | (Inr v, h2) \<Rightarrow>
               merge_keys n cloneMode recursiveMode result item rest
                 (setprop_st h2 result key v)))"

fun merge_items ::
  "nat \<Rightarrow> bool \<Rightarrow> bool \<Rightarrow> hval \<Rightarrow> hval list \<Rightarrow> store \<Rightarrow> (error + hval) \<times> store" where
  "merge_items n cloneMode recursiveMode result [] h = (Inr result, h)"
| "merge_items n cloneMode recursiveMode result (item # rest) h =
     (if typeOf_st h item \<noteq> ''object''
      then merge_items n cloneMode recursiveMode result rest h
      else
        (case merge_keys n cloneMode recursiveMode result item (map fst (props_st h item)) h of
           (Inl e, h') \<Rightarrow> (Inl e, h')
         | (Inr r, h') \<Rightarrow> merge_items n cloneMode recursiveMode result rest h'))"

definition merge_st ::
  "nat \<Rightarrow> bool \<Rightarrow> bool \<Rightarrow> hval list \<Rightarrow> store \<Rightarrow> (error + hval) \<times> store" where
  "merge_st n cloneMode recursiveMode argv h =
     (let first = (case argv of [] \<Rightarrow> HUndefined | a # _ \<Rightarrow> a) in
      if cloneMode \<or> typeOf_st h first \<noteq> ''object''
      then merge_items n cloneMode recursiveMode (HRef (length h)) argv (h @ [PlainObject []])
      else merge_items n cloneMode recursiveMode first argv h)"

definition recursive_st :: "nat \<Rightarrow> hval \<Rightarrow> hval list \<Rightarrow> store \<Rightarrow> (error + hval) \<times> store" where
  "recursive_st n cloneFlag args h = merge_st n (cloneFlag = HBool True) True (cloneFlag # args) h"

text \<open>
  \<open>mergeFieldData\<close> on the store: the object literal is allocated from the four
  properties of \<open>state\<close>, then \<open>merge.recursive(true, structure, literal)\<close> runs.
\<close>

definition mergeFieldData_st :: "nat \<Rightarrow> hval \<Rightarrow> hval \<Rightarrow> store \<Rightarrow> (error + hval) \<times> store" where
  "mergeFieldData_st n structure state h =
     (if state = HNull \<or> state = HUndefined then (Inl TypeError, h)
      else
        let literal = PlainObject
              [(''data'', getprop_st h state ''data''),
               (''messages'', getprop_st h state ''messages''),
               (''valid'', getprop_st h state ''valid''),
               (''value'', getprop_st h state ''value'')]
        in recursive_st n (HBool True) [structure, HRef (length h)] (h @ [literal]))"

text \<open>
  A store to run the definitions on: at address 3 a structural field with a nested
  \<open>data\<close> object, at address 5 its state entry.
\<close>

definition demo_store :: store where
  "demo_store =
     [PlainObject [(''x'', HNum 1)],
      PlainObject [(''a'', HNum 1), (''c'', HRef 0)],
      ArrayObject [],
      PlainObject [(''id'', HNum 1), (''name'', HStr ''Title''), (''data'', HRef 1),
                   (''messages'', HRef 2)],
      PlainObject [(''b'', HNum 2)],
      PlainObject [(''id'', HNum 1), (''value'', HStr ''Hello''), (''data'', HRef 4)]]"

section \<open>What a call leaves of the store\<close>

text \<open>
  For an address \<open>L\<close>: a value is \<open>fresh\<close> when it is not the address of an object below
  \<open>L\<close>; a store is \<open>closed\<close> when the objects from \<open>L\<close> on hold fresh values only; a store
  is \<open>kept\<close> by a later one when no object was lost, every object below \<open>L\<close> is what it
  was and every object is of the kind it was. The \<open>outcome\<close> of a call is the store it
  leaves and what it returns or raises.
\<close>

definition fresh :: "nat \<Rightarrow> hval \<Rightarrow> bool" where
  "fresh L v = (case v of HRef a \<Rightarrow> L \<le> a | _ \<Rightarrow> True)"

definition closed :: "nat \<Rightarrow> store \<Rightarrow> bool" where
  "closed L h =
     (\<forall>a. L \<le> a \<longrightarrow> a < length h \<longrightarrow> (\<forall>kv \<in> set (props_of (h ! a)). fresh L (snd kv)))"

definition kept :: "nat \<Rightarrow> store \<Rightarrow> store \<Rightarrow> bool" where
  "kept L h h' =
     (length h \<le> length h' \<and> take L h' = take L h
      \<and> (\<forall>a < length h. is_plain (h' ! a) = is_plain (h ! a)))"

definition outcome :: "nat \<Rightarrow> store \<Rightarrow> (error + hval) \<times> store \<Rightarrow> bool" where
  "outcome L h res =
     (kept L h (snd res) \<and> closed L (snd res)
      \<and> (\<forall>v. fst res = Inr v \<longrightarrow> fresh L v)
      \<and> (\<forall>e. fst res = Inl e \<longrightarrow> e = RangeError))"

text \<open>The loops of \<open>merge\<close> in clone mode return the result object they were given.\<close>

definition loop_outcome :: "nat \<Rightarrow> store \<Rightarrow> hval \<Rightarrow> (error + hval) \<times> store \<Rightarrow> bool" where
  "loop_outcome L h result res =
     (kept L h (snd res) \<and> closed L (snd res)
      \<and> (\<forall>v. fst res = Inr v \<longrightarrow> v = result)
      \<and> (\<forall>e. fst res = Inl e \<longrightarrow> e = RangeError))"

text \<open>
  The value an address stands for: the object behind it, read to the given depth
  (\<open>undefined\<close> below it).
\<close>

fun readback :: "nat \<Rightarrow> store \<Rightarrow> hval \<Rightarrow> jsval" where
  "readback n h HUndefined = JUndefined"
| "readback n h HNull = JNull"
| "readback n h (HBool b) = JBool b"
| "readback n h (HNum i) = JNum i"
| "readback n h (HStr s) = JStr s"
| "readback 0 h (HRef a) = JUndefined"
| "readback (Suc n) h (HRef a) =
     (if a < length h
      then (case h ! a of
              PlainObject kvs \<Rightarrow> JObj (map (\<lambda>kv. (fst kv, readback n h (snd kv))) kvs)
            | ArrayObject kvs \<Rightarrow> JArr (map (\<lambda>kv. readback n h (snd kv)) kvs))
      else JUndefined)"

section \<open>Objects that are finite trees\<close>

text \<open>
  The shape of what stands behind a value of the store: a primitive, or an object, plain
  or array, with the shapes of its property values in order. \<open>rep h v t\<close> says that in
  store \<open>h\<close> the value \<open>v\<close> has shape \<open>t\<close>; an object may be shared between several
  places, but no object is below itself, since a value with a shape is read in finitely
  many steps. A shape is well formed when its leaves are primitives and every object
  has distinct keys. Its \<open>height\<close> is the nesting depth of objects, which is the depth of
  calls the recursive functions of the package need for it.
\<close>

datatype shape = Leaf hval | Node bool "(string \<times> shape) list"

fun cells :: "shape \<Rightarrow> nat"
  and cells_all :: "(string \<times> shape) list \<Rightarrow> nat" where
  "cells (Leaf u) = 0"
| "cells (Node p kts) = Suc (cells_all kts)"
| "cells_all [] = 0"
| "cells_all (kt # rest) = cells (snd kt) + cells_all rest"

fun height :: "shape \<Rightarrow> nat"
  and heights :: "(string \<times> shape) list \<Rightarrow> nat" where
  "height (Leaf u) = 0"
| "height (Node p kts) = Suc (heights kts)"
| "heights [] = 0"
| "heights (kt # rest) = max (height (snd kt)) (heights rest)"

fun wf_shape :: "shape \<Rightarrow> bool"
  and wf_shapes :: "(string \<times> shape) list \<Rightarrow> bool" where
  "wf_shape (Leaf u) = (case u of HRef a \<Rightarrow> False | _ \<Rightarrow> True)"
| "wf_shape (Node p kts) = (distinct (map fst kts) \<and> wf_shapes kts)"
| "wf_shapes [] = True"
| "wf_shapes (kt # rest) = (wf_shape (snd kt) \<and> wf_shapes rest)"

fun rep :: "store \<Rightarrow> hval \<Rightarrow> shape \<Rightarrow> bool"
  and reps :: "store \<Rightarrow> (string \<times> hval) list \<Rightarrow> (string \<times> shape) list \<Rightarrow> bool" where
  "rep h v (Leaf u) = (v = u)"
| "rep h v (Node p kts) =
     (case v of
        HRef a \<Rightarrow> a < length h \<and> is_plain (h ! a) = p \<and> reps h (props_of (h ! a)) kts
      | _ \<Rightarrow> False)"
| "reps h kvs [] = (kvs = [])"
| "reps h kvs (kt # rest) =
     (case kvs of
        [] \<Rightarrow> False
      | kv # kvs' \<Rightarrow> fst kv = fst kt \<and> rep h (snd kv) (snd kt) \<and> reps h kvs' rest)"

text \<open>
  Where \<open>clone\<close> puts a copy. The copy of a shape is allocated as one block of
  consecutive objects: first the root, then the blocks of the property values, in order.
  \<open>cells t\<close> is the number of objects of the block, \<open>root a t\<close> the value that stands for a
  copy at address \<open>a\<close>, \<open>vals\<close> the properties of a root whose first property block starts
  at the given address, and \<open>blk h a t\<close> says that store \<open>h\<close> holds such a block at \<open>a\<close>.
\<close>

definition root :: "nat \<Rightarrow> shape \<Rightarrow> hval" where
  "root a t = (case t of Leaf u \<Rightarrow> u | Node p kts \<Rightarrow> HRef a)"

fun vals :: "nat \<Rightarrow> (string \<times> shape) list \<Rightarrow> (string \<times> hval) list" where
  "vals a [] = []"
| "vals a (kt # rest) = (fst kt, root a (snd kt)) # vals (a + cells (snd kt)) rest"

definition mkobj :: "bool \<Rightarrow> (string \<times> hval) list \<Rightarrow> hobj" where
  "mkobj p kvs = (if p then PlainObject kvs else ArrayObject kvs)"

fun blk :: "store \<Rightarrow> nat \<Rightarrow> shape \<Rightarrow> bool"
  and blks :: "store \<Rightarrow> nat \<Rightarrow> (string \<times> shape) list \<Rightarrow> bool" where
  "blk h a (Leaf u) = True"
| "blk h a (Node p kts) =
     (a < length h \<and> h ! a = mkobj p (vals (Suc a) kts) \<and> blks h (Suc a) kts)"
| "blks h a [] = True"
| "blks h a (kt # rest) = (blk h a (snd kt) \<and> blks h (a + cells (snd kt)) rest)"

text \<open>
  The invariant of a loop that writes the properties \<open>K\<close> of a copied plain object at
  \<open>b\<close>, one after the other: under the keys of \<open>K\<close> the object still holds what was copied,
  and the blocks of those property values are untouched.
\<close>

definition base_inv :: "store \<Rightarrow> nat \<Rightarrow> (string \<times> shape) list \<Rightarrow> string set \<Rightarrow> bool" where
  "base_inv h b bk K =
     (b < length h
      \<and> (\<exists>cur. h ! b = PlainObject cur \<and> (\<forall>k \<in> K. map_of cur k = map_of (vals (Suc b) bk) k))
      \<and> (\<forall>j < length bk. fst (bk ! j) \<in> K \<longrightarrow>
            blk h (Suc b + cells_all (take j bk)) (snd (bk ! j))))"


text \<open>The shapes of the structural field and of the state entry of the sample store.\<close>

definition demo_structure_shape :: shape where
  "demo_structure_shape =
     Node True
       [(''id'', Leaf (HNum 1)), (''name'', Leaf (HStr ''Title'')),
        (''data'', Node True [(''a'', Leaf (HNum 1)),
                              (''c'', Node True [(''x'', Leaf (HNum 1))])]),
        (''messages'', Node False [])]"

definition demo_state_shape :: shape where
  "demo_state_shape =
     Node True
       [(''id'', Leaf (HNum 1)), (''value'', Leaf (HStr ''Hello'')),
        (''data'', Node True [(''b'', Leaf (HNum 2))])]"

chapter \<open>Properties\<close>

section \<open>Basic facts\<close>

lemma strict_eq_prim [simp]:
  "strict_eq a JNull = (a = JNull)"
  "strict_eq a JUndefined = (a = JUndefined)"
  "strict_eq a (JStr s) = (a = JStr s)"
  by (cases a; simp)+

lemma andThen_simps [simp]:
  "andThen (Inl e) f = Inl e"
  "andThen (Inr x) f = f x"
  by (simp_all add: andThen_def)

lemma get_defined: "v \<noteq> JNull \<Longrightarrow> v \<noteq> JUndefined \<Longrightarrow> get v k = Inr (getprop v k)"
  by (simp add: get_def)

lemma get_nullish [simp]: "get JNull k = Inl TypeError" "get JUndefined k = Inl TypeError"
  by (simp_all add: get_def)

lemma get_JObj [simp]: "get (JObj kvs) k = Inr (obj_get kvs k)"
  by (simp add: get_def)

section \<open>Mapping fields to components\<close>

lemma map_indexed_total:
  assumes "\<forall>x \<in> set xs. \<forall>j. \<exists>y. f x j = Inr y"
  shows "\<exists>ys. map_indexed f i xs = Inr ys \<and> length ys = length xs
           \<and> (\<forall>j < length xs. f (xs ! j) (i + j) = Inr (ys ! j))"
  using assms
proof (induction xs arbitrary: i)
  case Nil
  then show ?case by simp
next
  case (Cons x xs)
  from Cons.prems have "\<exists>y. f x i = Inr y" by simp
  then obtain y where y: "f x i = Inr y" by blast
  from Cons.prems have "\<forall>x \<in> set xs. \<forall>j. \<exists>y. f x j = Inr y" by simp
  from Cons.IH [OF this, of "Suc i"] obtain ys where
    ys: "map_indexed f (Suc i) xs = Inr ys" "length ys = length xs"
        "\<forall>j < length xs. f (xs ! j) (Suc i + j) = Inr (ys ! j)" by blast
  have "\<forall>j < length (x # xs). f ((x # xs) ! j) (i + j) = Inr ((y # ys) ! j)"
  proof (intro allI impI)
    fix j assume "j < length (x # xs)"
    then show "f ((x # xs) ! j) (i + j) = Inr ((y # ys) ! j)"
      using y ys(3) by (cases j) auto
  qed
  with y ys show ?case by simp
qed

lemma field_component_defined:
  assumes "f \<noteq> JNull" "f \<noteq> JUndefined"
  shows "field_component reg f = Inr (resolved reg f)"
  using assms by (simp add: field_component_def resolved_def get_defined)

lemma field_node_defined:
  assumes "f \<noteq> JNull" "f \<noteq> JUndefined"
  shows "field_node reg createFn f i =
     Inr (if resolved reg f = JNull then NullNode
          else case createFn of
                 Some g \<Rightarrow> Created (g (resolved reg f)
                            (JObj (object_assign (object_assign [] (own_props f))
                               [(''onChange'', JFun ''handleFieldUpdate'')])))
               | None \<Rightarrow> Element (resolved reg f)
                            (object_assign [(''key'', JNum (int i))]
                               (object_assign (object_assign [] (own_props f))
                                  [(''onChange'', JFun ''handleFieldUpdate'')])))"
  using assms
  by (simp add: field_node_def field_component_defined Let_def split: option.splits)

lemma mapFieldsToComponents_nth:
  assumes "\<forall>f \<in> set fieldList. f \<noteq> JNull \<and> f \<noteq> JUndefined"
  shows "\<exists>ns. mapFieldsToComponents reg createFn fieldList = Inr ns
           \<and> length ns = length fieldList
           \<and> (\<forall>i < length fieldList.
                 field_node reg createFn (fieldList ! i) i = Inr (ns ! i))"
proof -
  have tot: "\<forall>x \<in> set fieldList. \<forall>j. \<exists>y. field_node reg createFn x j = Inr y"
  proof (intro ballI allI)
    fix x j assume "x \<in> set fieldList"
    then have "x \<noteq> JNull" "x \<noteq> JUndefined" using assms by simp_all
    from field_node_defined [OF this, of reg createFn j]
    show "\<exists>y. field_node reg createFn x j = Inr y" by (rule exI)
  qed
  from map_indexed_total [OF tot, of 0] show ?thesis
    unfolding mapFieldsToComponents_def by simp
qed

text \<open>
  C10. The list returned by \<open>mapFieldsToComponents\<close> has the length of the field list it
  was given: a field whose component lookup answers \<open>null\<close> leaves a \<open>null\<close> entry at its
  own position, and every other field leaves a non-null entry at its own position. The
  fields are field definitions, that is, not \<open>null\<close> or \<open>undefined\<close> themselves.
\<close>

theorem mapFieldsToComponents_length:
  assumes "\<forall>f \<in> set fieldList. f \<noteq> JNull \<and> f \<noteq> JUndefined"
  shows "\<exists>ns. mapFieldsToComponents reg createFn fieldList = Inr ns
           \<and> length ns = length fieldList
           \<and> (\<forall>i < length fieldList.
                 (ns ! i = NullNode) = (field_component reg (fieldList ! i) = Inr JNull))"
proof -
  from mapFieldsToComponents_nth [OF assms, of reg createFn] obtain ns where
    ns: "mapFieldsToComponents reg createFn fieldList = Inr ns"
        "length ns = length fieldList"
        "\<forall>j < length fieldList. field_node reg createFn (fieldList ! j) j = Inr (ns ! j)"
    by (elim exE conjE)
  have "\<forall>i < length fieldList.
          (ns ! i = NullNode) = (field_component reg (fieldList ! i) = Inr JNull)"
  proof (intro allI impI)
    fix i assume i: "i < length fieldList"
    then have "fieldList ! i \<in> set fieldList" by simp
    then have nn: "fieldList ! i \<noteq> JNull" "fieldList ! i \<noteq> JUndefined"
      using assms by simp_all
    from ns(3) i have "Inr (ns ! i) = field_node reg createFn (fieldList ! i) i" by simp
    then have "ns ! i =
       (if resolved reg (fieldList ! i) = JNull then NullNode
        else case createFn of
               Some g \<Rightarrow> Created (g (resolved reg (fieldList ! i))
                          (JObj (object_assign (object_assign [] (own_props (fieldList ! i)))
                             [(''onChange'', JFun ''handleFieldUpdate'')])))
             | None \<Rightarrow> Element (resolved reg (fieldList ! i))
                          (object_assign [(''key'', JNum (int i))]
                             (object_assign (object_assign [] (own_props (fieldList ! i)))
                                [(''onChange'', JFun ''handleFieldUpdate'')])))"
      by (simp add: field_node_defined [OF nn])
    then show "(ns ! i = NullNode) = (field_component reg (fieldList ! i) = Inr JNull)"
      by (simp add: field_component_defined [OF nn] split: option.splits)
  qed
  with ns(1,2) show ?thesis by blast
qed

theorem mapFieldsToComponents_length_witness:
  "\<exists>ns. mapFieldsToComponents demo_reg (None :: (jsval \<Rightarrow> jsval \<Rightarrow> unit) option) demo_fields
          = Inr ns
      \<and> length ns = 3
      \<and> (\<forall>i < 3. (ns ! i = NullNode) = (field_component demo_reg (demo_fields ! i) = Inr JNull))"
proof -
  have h: "\<forall>f \<in> set demo_fields. f \<noteq> JNull \<and> f \<noteq> JUndefined"
    by (simp add: demo_fields_def)
  have l: "length demo_fields = 3" by (simp add: demo_fields_def)
  from mapFieldsToComponents_length [OF h, of demo_reg None] h l show ?thesis by simp
qed

text \<open>
  C5, as stated, fails for a field that has no \<open>component\<close> property at all. The test
  in the code is \<open>field.component !== null\<close>; the absent property reads as \<open>undefined\<close>,
  which is not \<open>null\<close>, so the lookup is by name, with the name \<open>undefined\<close>. With a
  registry that knows the data type \<open>Text\<close>, the field \<open>{id: 1, type: 'Text'}\<close> is
  dropped although its data type resolves.
\<close>

theorem absent_component_counterexample:
  "mapFieldsToComponents demo_reg (None :: (jsval \<Rightarrow> jsval \<Rightarrow> unit) option)
       [JObj [(''id'', JNum 1), (''type'', JStr ''Text'')]] = Inr [NullNode]
   \<and> getComponentByDataType demo_reg (JStr ''Text'') = JFun ''TextField''
   \<and> getprop (JObj [(''id'', JNum 1), (''type'', JStr ''Text'')]) ''component'' = JUndefined"
  by (simp add: mapFieldsToComponents_def field_node_def field_component_def get_def
        obj_get_def andThen_def demo_reg_def)

text \<open>
  C5, as the code has it. For a field definition at position \<open>i\<close>, the component is
  looked up by name whenever the field's \<open>component\<close> property is not \<open>null\<close>, which
  includes the property being absent, and by the field's data type only when the property
  is \<open>null\<close>. When the lookup answers \<open>null\<close> the entry at position \<open>i\<close> is \<open>null\<close>, which
  React renders as nothing, and the call returns normally; for any other answer the entry
  is built from the component that was looked up.
\<close>

theorem unresolved_field_yields_null:
  assumes "\<forall>f \<in> set fieldList. f \<noteq> JNull \<and> f \<noteq> JUndefined"
    and "i < length fieldList"
    and "Component =
           (if getprop (fieldList ! i) ''component'' \<noteq> JNull
            then getComponentByName reg (getprop (fieldList ! i) ''component'')
            else getComponentByDataType reg (getprop (fieldList ! i) ''type''))"
  shows "\<exists>ns. mapFieldsToComponents reg createFn fieldList = Inr ns
           \<and> (Component = JNull \<longrightarrow> ns ! i = NullNode)
           \<and> (Component \<noteq> JNull \<longrightarrow>
                (\<exists>props. ns ! i = (case createFn of
                                        Some g \<Rightarrow> Created (g Component (JObj props))
                                      | None \<Rightarrow> Element Component
                                                 (object_assign [(''key'', JNum (int i))] props))))"
proof -
  from mapFieldsToComponents_nth [OF assms(1), of reg createFn] obtain ns where
    ns: "mapFieldsToComponents reg createFn fieldList = Inr ns"
        "\<forall>j < length fieldList. field_node reg createFn (fieldList ! j) j = Inr (ns ! j)"
    by (elim exE conjE)
  from assms(2) have "fieldList ! i \<in> set fieldList" by simp
  then have nn: "fieldList ! i \<noteq> JNull" "fieldList ! i \<noteq> JUndefined"
    using assms(1) by simp_all
  have c: "resolved reg (fieldList ! i) = Component"
    using assms(3) by (simp add: resolved_def)
  from ns(2) assms(2) have "Inr (ns ! i) = field_node reg createFn (fieldList ! i) i" by simp
  then have n: "ns ! i =
     (if Component = JNull then NullNode
      else case createFn of
             Some g \<Rightarrow> Created (g Component
                        (JObj (object_assign (object_assign [] (own_props (fieldList ! i)))
                           [(''onChange'', JFun ''handleFieldUpdate'')])))
           | None \<Rightarrow> Element Component
                        (object_assign [(''key'', JNum (int i))]
                           (object_assign (object_assign [] (own_props (fieldList ! i)))
                              [(''onChange'', JFun ''handleFieldUpdate'')])))"
    unfolding field_node_defined [OF nn] c by simp
  have "Component \<noteq> JNull \<longrightarrow>
          (\<exists>props. ns ! i = (case createFn of
                                  Some g \<Rightarrow> Created (g Component (JObj props))
                                | None \<Rightarrow> Element Component
                                           (object_assign [(''key'', JNum (int i))] props)))"
  proof
    assume "Component \<noteq> JNull"
    with n have "ns ! i = (case createFn of
           Some g \<Rightarrow> Created (g Component
                        (JObj (object_assign (object_assign [] (own_props (fieldList ! i)))
                           [(''onChange'', JFun ''handleFieldUpdate'')])))
         | None \<Rightarrow> Element Component
                        (object_assign [(''key'', JNum (int i))]
                           (object_assign (object_assign [] (own_props (fieldList ! i)))
                              [(''onChange'', JFun ''handleFieldUpdate'')])))"
      by simp
    then show "\<exists>props. ns ! i = (case createFn of
                                  Some g \<Rightarrow> Created (g Component (JObj props))
                                | None \<Rightarrow> Element Component
                                           (object_assign [(''key'', JNum (int i))] props))"
      by (rule exI)
  qed
  moreover from n have "Component = JNull \<longrightarrow> ns ! i = NullNode" by simp
  ultimately show ?thesis using ns(1) by blast
qed

theorem unresolved_field_yields_null_witness:
  "\<exists>ns. mapFieldsToComponents demo_reg (None :: (jsval \<Rightarrow> jsval \<Rightarrow> unit) option) demo_fields
          = Inr ns
      \<and> ns ! 1 = NullNode"
proof -
  have h: "\<forall>f \<in> set demo_fields. f \<noteq> JNull \<and> f \<noteq> JUndefined"
    by (simp add: demo_fields_def)
  have l: "1 < length demo_fields" by (simp add: demo_fields_def)
  have c: "JNull =
     (if getprop (demo_fields ! 1) ''component'' \<noteq> JNull
      then getComponentByName demo_reg (getprop (demo_fields ! 1) ''component'')
      else getComponentByDataType demo_reg (getprop (demo_fields ! 1) ''type''))"
    by (simp add: demo_fields_def demo_reg_def obj_get_def)
  from unresolved_field_yields_null [OF h l c, of None] show ?thesis by simp
qed

section \<open>Fetching\<close>

lemma andThen_Inr_iff:
  "(andThen r f = Inr y) = (\<exists>x. r = Inr x \<and> f x = Inr y)"
  by (cases r) simp_all

lemma fetch_guarded:
  "isFetching c \<Longrightarrow> fetch p sch st (c, reqs) = (formSchemaPromise c, c, reqs)"
  by (simp add: fetch_def)

lemma fetch_unguarded:
  "\<not> isFetching c \<Longrightarrow>
     fetch p sch st (c, reqs) =
       (Some (length reqs), c\<lparr> formSchemaPromise := Some (length reqs) \<rparr>,
        reqs @ [(schemaUrl p,
                 join '','' ((if sch then [''schema''] else []) @ (if st then [''state''] else [])))])"
  by (simp add: fetch_def Let_def)

lemma mounts_invariant:
  "(componentDidMount p ^^ n) (constructor, []) = (c, reqs) \<Longrightarrow>
     \<not> isFetching c \<and> length reqs = n"
proof (induction n arbitrary: c reqs)
  case 0
  then show ?case by (auto simp add: constructor_def)
next
  case (Suc n)
  obtain c0 reqs0 where s: "(componentDidMount p ^^ n) (constructor, []) = (c0, reqs0)"
    by (cases "(componentDidMount p ^^ n) (constructor, [])")
  from Suc.IH [OF s] have i: "\<not> isFetching c0" "length reqs0 = n" by simp_all
  from Suc.prems s have "componentDidMount p (c0, reqs0) = (c, reqs)" by simp
  with i show ?case by (auto simp add: componentDidMount_def fetch_unguarded)
qed

text \<open>
  C1, as the code has it. \<open>fetch\<close> answers with the stored promise, and issues no request,
  exactly when the instance's \<open>isFetching\<close> flag is set. A call with the flag clear issues
  one request, stores and returns the promise of that request, and leaves the flag clear.
  The constructor clears the flag and nothing sets it, so \<open>n\<close> calls on a new instance
  issue \<open>n\<close> requests, whether or not an earlier one has been answered.
\<close>

theorem fetch_is_guarded_by_flag:
  "(isFetching c \<longrightarrow> fetch p sch st (c, reqs) = (formSchemaPromise c, c, reqs))
   \<and> (\<not> isFetching c \<longrightarrow>
        (\<exists>c' hdr. fetch p sch st (c, reqs) = (Some (length reqs), c', reqs @ [(schemaUrl p, hdr)])
           \<and> formSchemaPromise c' = Some (length reqs) \<and> \<not> isFetching c'))
   \<and> length (snd ((componentDidMount p ^^ n) (constructor, []))) = n"
proof -
  have "length (snd ((componentDidMount p ^^ n) (constructor, []))) = n"
    using mounts_invariant [where p=p and n=n]
    by (cases "(componentDidMount p ^^ n) (constructor, [])") simp
  then show ?thesis by (simp add: fetch_guarded fetch_unguarded)
qed

theorem fetch_is_guarded_by_flag_witness:
  "fetch demo_props True True
      (constructor\<lparr> isFetching := True, formSchemaPromise := Some 0 \<rparr>,
       [(''admin/schema'', ''schema,state'')])
     = (Some 0, constructor\<lparr> isFetching := True, formSchemaPromise := Some 0 \<rparr>,
        [(''admin/schema'', ''schema,state'')])
   \<and> (\<exists>c' hdr. fetch demo_props True True (constructor, [])
                  = (Some 0, c', [(''admin/schema'', hdr)]))
   \<and> length (snd ((componentDidMount demo_props ^^ 3) (constructor, []))) = 3"
  using fetch_is_guarded_by_flag
          [of "constructor\<lparr> isFetching := True, formSchemaPromise := Some 0 \<rparr>"
              demo_props True True "[(''admin/schema'', ''schema,state'')]" 3]
        fetch_is_guarded_by_flag [of constructor demo_props True True "[]" 3]
  by (auto simp add: constructor_def demo_props_def)

text \<open>
  C1, as the claim states it, fails: on a new instance a second call of \<open>fetch\<close>, made
  before anything has answered the first, returns another promise and a second request
  has been issued.
\<close>

theorem second_fetch_counterexample:
  "fst (fetch demo_props True True (snd (fetch demo_props True True (constructor, []))))
     \<noteq> fst (fetch demo_props True True (constructor, []))
   \<and> length (snd (snd (fetch demo_props True True
                          (snd (fetch demo_props True True (constructor, [])))))) = 2"
  by (simp add: fetch_def constructor_def Let_def)

lemma on_json_without_id:
  assumes "json \<noteq> JNull" "json \<noteq> JUndefined" "getprop json ''id'' = JUndefined"
  shows "on_json g p json =
     Inr (None,
          if obj_get (object_assign [] (own_props (getprop json ''state''))) ''id'' \<noteq> JUndefined
          then [AddForm (JObj (object_assign [] (own_props (getprop json ''state''))))]
          else [])"
  using assms
  by (simp add: on_json_def get_defined object_assign_def obj_get_def Let_def)

lemma publish_schema_dispatched:
  assumes "publish_schema g p fs = Inr (api, ds)"
  shows "ds = [SetSchema (JObj fs)]"
  using assms unfolding publish_schema_def andThen_Inr_iff by auto

lemma on_json_with_id:
  assumes "json \<noteq> JNull" "json \<noteq> JUndefined" "getprop json ''id'' \<noteq> JUndefined"
    and "on_json g p json = Inr (api, ds)"
  shows "ds = SetSchema (JObj [(''id'', getprop json ''id''), (''schema'', getprop json ''schema'')]) #
     (if obj_get (object_assign [] (own_props (getprop json ''state''))) ''id'' \<noteq> JUndefined
      then [AddForm (JObj (object_assign [] (own_props (getprop json ''state''))))]
      else [])"
proof -
  let ?fs = "[(''id'', getprop json ''id''), (''schema'', getprop json ''schema'')]"
  have fs: "object_assign [] ?fs = ?fs" by (simp add: object_assign_def)
  have i: "obj_get ?fs ''id'' \<noteq> JUndefined" using assms(3) by (simp add: obj_get_def)
  from assms(4) obtain r where r: "publish_schema g p ?fs = Inr r"
    using i unfolding on_json_def get_defined [OF assms(1,2)] fs andThen_simps Let_def
    by (cases "publish_schema g p ?fs") simp_all
  obtain a d where ad: "r = (a, d)" by (cases r)
  from publish_schema_dispatched [OF r [unfolded ad]] have d: "d = [SetSchema (JObj ?fs)]" .
  from assms(4) show ?thesis
    using i unfolding on_json_def get_defined [OF assms(1,2)] fs andThen_simps Let_def r ad d
    by (auto split: if_splits)
qed

lemma on_json_dispatched:
  assumes "on_json g p json = Inr (api, ds)"
  shows "(\<forall>s. SetSchema s \<in> set ds \<longrightarrow> getprop json ''id'' \<noteq> JUndefined)
       \<and> (\<forall>f. AddForm f \<in> set ds \<longrightarrow>
              f = JObj (object_assign [] (own_props (getprop json ''state'')))
              \<and> getprop f ''id'' \<noteq> JUndefined)"
proof -
  from assms have nn: "json \<noteq> JNull" "json \<noteq> JUndefined"
    by (auto simp add: on_json_def)
  show ?thesis
  proof (cases "getprop json ''id'' = JUndefined")
    case True
    from assms show ?thesis
      unfolding on_json_without_id [OF nn True]
      by (auto split: if_splits)
  next
    case False
    from on_json_with_id [OF nn False assms] show ?thesis
      using False by (auto split: if_splits)
  qed
qed

text \<open>
  C6. When the response has no top-level \<open>id\<close>, the callback returns normally, leaves
  \<open>submitApi\<close> alone and dispatches no set-schema action. For every response, a set-schema
  action is dispatched only when the top-level \<open>id\<close> is defined, and an add-form action is
  dispatched only for the state record and only when that record's \<open>id\<close> is defined.
\<close>

theorem schema_published_only_with_id:
  "(json \<noteq> JNull \<longrightarrow> json \<noteq> JUndefined \<longrightarrow> getprop json ''id'' = JUndefined \<longrightarrow>
      (\<exists>ds. on_json g p json = Inr (None, ds) \<and> (\<forall>s. SetSchema s \<notin> set ds)))
   \<and> (on_json g p json = Inr (api, dispatched) \<longrightarrow>
        (\<forall>s. SetSchema s \<in> set dispatched \<longrightarrow> getprop json ''id'' \<noteq> JUndefined)
        \<and> (\<forall>f. AddForm f \<in> set dispatched \<longrightarrow>
               f = JObj (object_assign [] (own_props (getprop json ''state'')))
               \<and> getprop f ''id'' \<noteq> JUndefined))"
proof (intro conjI impI)
  assume "json \<noteq> JNull" "json \<noteq> JUndefined" "getprop json ''id'' = JUndefined"
  from on_json_without_id [OF this, of g p]
  show "\<exists>ds. on_json g p json = Inr (None, ds) \<and> (\<forall>s. SetSchema s \<notin> set ds)"
    by simp
next
  assume a: "on_json g p json = Inr (api, dispatched)"
  from on_json_dispatched [OF a]
  show "\<forall>s. SetSchema s \<in> set dispatched \<longrightarrow> getprop json ''id'' \<noteq> JUndefined" by blast
  from on_json_dispatched [OF a]
  show "\<forall>f. AddForm f \<in> set dispatched \<longrightarrow>
          f = JObj (object_assign [] (own_props (getprop json ''state'')))
          \<and> getprop f ''id'' \<noteq> JUndefined" by blast
qed

theorem schema_published_only_with_id_witness:
  "on_json (\<lambda>s. False) demo_props demo_response_no_id
     = Inr (None, [AddForm (JObj [(''id'', JStr ''f1''), (''fields'', JArr [])])])
   \<and> (\<exists>ds. on_json (\<lambda>s. False) demo_props demo_response_no_id = Inr (None, ds)
           \<and> (\<forall>s. SetSchema s \<notin> set ds))"
proof -
  have e: "on_json (\<lambda>s. False) demo_props demo_response_no_id
     = Inr (None, [AddForm (JObj [(''id'', JStr ''f1''), (''fields'', JArr [])])])"
    by (simp add: on_json_def demo_response_no_id_def demo_props_def object_assign_def
          obj_get_def Let_def)
  have h: "demo_response_no_id \<noteq> JNull" "demo_response_no_id \<noteq> JUndefined"
          "getprop demo_response_no_id ''id'' = JUndefined"
    by (simp_all add: demo_response_no_id_def obj_get_def)
  from schema_published_only_with_id
         [of demo_response_no_id "\<lambda>s. False" demo_props None
             "[AddForm (JObj [(''id'', JStr ''f1''), (''fields'', JArr [])])]"]
       h e
  show ?thesis by blast
qed

section \<open>Field updates\<close>

text \<open>
  C7. With a function as third argument, \<open>handleFieldUpdate\<close> makes exactly the calls that
  function makes when given the form identifier and the update action, so a function
  that does not use the action leaves nothing dispatched; without one it calls the
  update action with the form identifier and the updates.
\<close>

theorem handleFieldUpdate_delegates:
  "handleFieldUpdate p event updates (Some f) = f (getFormId p) updateField
   \<and> handleFieldUpdate p event updates (Some (\<lambda>formId action. [])) = []
   \<and> handleFieldUpdate p event updates None = [UpdateField (getFormId p) updates]"
  by (simp add: handleFieldUpdate_def updateField_def)

section \<open>Mapping actions to components\<close>

lemma map_of_object_assign:
  "map_of (object_assign t src) = map_of t ++ map_of (rev src)"
proof (induction src arbitrary: t)
  case Nil
  then show ?case by (simp add: object_assign_def)
next
  case (Cons a src)
  obtain k v where a: "a = (k, v)" by (cases a)
  have "object_assign t (a # src) = object_assign (AList.update k v t) src"
    by (simp add: object_assign_def a)
  then have "map_of (object_assign t (a # src)) = map_of (AList.update k v t) ++ map_of (rev src)"
    by (simp add: Cons.IH)
  also have "\<dots> = map_of t ++ map_of (rev (a # src))"
    by (rule ext) (simp add: a update_conv' map_add_def split: option.splits)
  finally show ?case .
qed

lemma obj_get_object_assign:
  assumes "distinct (map fst src)"
  shows "obj_get (object_assign t src) k =
           (if k \<in> fst ` set src then obj_get src k else obj_get t k)"
proof -
  from assms have "map_of (rev src) = map_of src"
    by (subst map_of_inject_set) (simp_all add: rev_map [symmetric])
  then have m: "map_of (object_assign t src) = map_of t ++ map_of src"
    by (simp add: map_of_object_assign)
  show ?thesis
  proof (cases "map_of src k")
    case None
    then have "k \<notin> fst ` set src" by (simp add: map_of_eq_None_iff)
    with None show ?thesis by (simp add: obj_get_def m map_add_def)
  next
    case (Some v)
    then have "k \<in> fst ` set src" by (metis map_of_eq_None_iff option.distinct(1))
    with Some show ?thesis by (simp add: obj_get_def m map_add_def)
  qed
qed

lemma update_fresh:
  "k \<notin> fst ` set t \<Longrightarrow> AList.update k v t = t @ [(k, v)]"
  by (induction t) auto

lemma object_assign_append:
  "distinct (map fst (t @ src)) \<Longrightarrow> object_assign t src = t @ src"
proof (induction src arbitrary: t)
  case Nil
  then show ?case by (simp add: object_assign_def)
next
  case (Cons a src)
  obtain k v where a: "a = (k, v)" by (cases a)
  from Cons.prems have k: "k \<notin> fst ` set t" by (auto simp add: a)
  have "object_assign t (a # src) = object_assign (AList.update k v t) src"
    by (simp add: object_assign_def a)
  also have "\<dots> = object_assign (t @ [(k, v)]) src" by (simp add: update_fresh [OF k])
  also have "\<dots> = (t @ [(k, v)]) @ src"
    using Cons.prems by (intro Cons.IH) (simp add: a)
  finally show ?case by (simp add: a)
qed

lemma defaults_assign:
  "object_assign [] [(''type'', a), (''label'', b), (''icon'', c), (''loading'', d),
                     (''bootstrapButtonStyle'', e)]
     = [(''type'', a), (''label'', b), (''icon'', c), (''loading'', d),
        (''bootstrapButtonStyle'', e)]"
  "object_assign [] [(''type'', a), (''label'', b)] = [(''type'', a), (''label'', b)]"
  by (simp_all add: object_assign_def)

lemma action_props_save:
  assumes "distinct (map fst kvs)" "formState \<noteq> JNull"
    and "obj_get kvs ''name'' = JStr ''action_save''"
  shows "\<exists>ps. action_props formState (JObj kvs) = Inr (JObj ps)
     \<and> (\<forall>k. obj_get ps k =
           (if k \<in> fst ` set kvs then obj_get kvs k
            else obj_get [(''type'', JStr ''submit''),
                          (''label'', obj_get kvs ''title''),
                          (''icon'', JStr ''save''),
                          (''loading'', if formState = JUndefined then JBool False
                                        else getprop formState ''submitting''),
                          (''bootstrapButtonStyle'', JStr ''primary'')] k))"
proof -
  let ?d = "[(''type'', JStr ''submit''), (''label'', obj_get kvs ''title''),
             (''icon'', JStr ''save''),
             (''loading'', if formState = JUndefined then JBool False
                           else getprop formState ''submitting''),
             (''bootstrapButtonStyle'', JStr ''primary'')]"
  have "action_props formState (JObj kvs) = Inr (JObj (object_assign ?d kvs))"
    using assms(2,3)
    by (simp add: action_props_def deepFreeze_def get_defined Let_def defaults_assign)
  then show ?thesis
    using obj_get_object_assign [OF assms(1), of ?d] by simp
qed

lemma action_props_cancel:
  assumes "distinct (map fst kvs)"
    and "obj_get kvs ''name'' = JStr ''action_cancel''"
  shows "\<exists>ps. action_props formState (JObj kvs) = Inr (JObj ps)
     \<and> (\<forall>k. obj_get ps k =
           (if k \<in> fst ` set kvs then obj_get kvs k
            else obj_get [(''type'', JStr ''button''), (''label'', obj_get kvs ''title'')] k))"
proof -
  let ?d = "[(''type'', JStr ''button''), (''label'', obj_get kvs ''title'')]"
  have "action_props formState (JObj kvs) = Inr (JObj (object_assign ?d kvs))"
    using assms(2) by (simp add: action_props_def deepFreeze_def Let_def defaults_assign)
  then show ?thesis
    using obj_get_object_assign [OF assms(1), of ?d] by simp
qed

lemma action_props_other:
  assumes "obj_get kvs ''name'' \<noteq> JStr ''action_save''"
    and "obj_get kvs ''name'' \<noteq> JStr ''action_cancel''"
  shows "action_props formState (JObj kvs) = Inr (JObj kvs)"
  using assms by (simp add: action_props_def deepFreeze_def Let_def)


lemma action_props_cases:
  assumes "distinct (map fst kvs)" "formState \<noteq> JNull"
  shows "\<exists>props. action_props formState (JObj kvs) = Inr (JObj props)
     \<and> (obj_get kvs ''name'' = JStr ''action_save'' \<longrightarrow>
          (\<forall>k. obj_get props k =
             (if k \<in> fst ` set kvs then obj_get kvs k
              else obj_get [(''type'', JStr ''submit''),
                            (''label'', obj_get kvs ''title''),
                            (''icon'', JStr ''save''),
                            (''loading'', if formState = JUndefined then JBool False
                                          else getprop formState ''submitting''),
                            (''bootstrapButtonStyle'', JStr ''primary'')] k)))
     \<and> (obj_get kvs ''name'' = JStr ''action_cancel'' \<longrightarrow>
          (\<forall>k. obj_get props k =
             (if k \<in> fst ` set kvs then obj_get kvs k
              else obj_get [(''type'', JStr ''button''),
                            (''label'', obj_get kvs ''title'')] k)))
     \<and> (obj_get kvs ''name'' \<noteq> JStr ''action_save''
          \<and> obj_get kvs ''name'' \<noteq> JStr ''action_cancel'' \<longrightarrow> props = kvs)"
proof -
  consider (save) "obj_get kvs ''name'' = JStr ''action_save''"
    | (cancel) "obj_get kvs ''name'' = JStr ''action_cancel''"
    | (other) "obj_get kvs ''name'' \<noteq> JStr ''action_save''"
              "obj_get kvs ''name'' \<noteq> JStr ''action_cancel''"
    by blast
  then show ?thesis
  proof cases
    case save
    from action_props_save [OF assms save] show ?thesis using save by auto
  next
    case cancel
    from action_props_cancel [OF assms(1) cancel, of formState] show ?thesis
      using cancel by auto
  next
    case other
    from action_props_other [OF other, of formState] show ?thesis using other by simp
  qed
qed

text \<open>
  C4. \<open>mapActionsToComponents\<close> gives every action definition one entry, built from the
  \<open>FormAction\<close> component and the action's resolved properties. For an action named
  \<open>action_save\<close> a property the action has keeps the action's value, and any other property
  takes its default: type \<open>submit\<close>, the label from the action's title, icon \<open>save\<close>, the
  loading flag from the form's \<open>submitting\<close> state (\<open>false\<close> when the store has no state for
  the form), button style \<open>primary\<close>. For \<open>action_cancel\<close> the defaults are type \<open>button\<close>
  and the label from the title, and nothing else. Any other action is passed on as it
  is. Action definitions are objects, and the form's state is not \<open>null\<close>.
\<close>

theorem mapActionsToComponents_defaults:
  assumes "\<forall>a \<in> set actions. \<exists>kvs. a = JObj kvs \<and> distinct (map fst kvs)"
    and "formState = obj_get (form p) (to_key (getFormId p))"
    and "formState \<noteq> JNull"
  shows "\<exists>ns. mapActionsToComponents p createFn actions = Inr ns
     \<and> length ns = length actions
     \<and> (\<forall>i < length actions. \<exists>props.
           ns ! i = (case createFn of
                       Some g \<Rightarrow> Created (g (JFun ''FormAction'') (JObj props))
                     | None \<Rightarrow> Element (JFun ''FormAction'')
                                (object_assign [(''key'', JNum (int i))] props))
         \<and> (getprop (actions ! i) ''name'' = JStr ''action_save'' \<longrightarrow>
              (\<forall>k. obj_get props k =
                 (if k \<in> fst ` set (own_props (actions ! i)) then getprop (actions ! i) k
                  else obj_get [(''type'', JStr ''submit''),
                                (''label'', getprop (actions ! i) ''title''),
                                (''icon'', JStr ''save''),
                                (''loading'', if formState = JUndefined then JBool False
                                              else getprop formState ''submitting''),
                                (''bootstrapButtonStyle'', JStr ''primary'')] k)))
         \<and> (getprop (actions ! i) ''name'' = JStr ''action_cancel'' \<longrightarrow>
              (\<forall>k. obj_get props k =
                 (if k \<in> fst ` set (own_props (actions ! i)) then getprop (actions ! i) k
                  else obj_get [(''type'', JStr ''button''),
                                (''label'', getprop (actions ! i) ''title'')] k)))
         \<and> (getprop (actions ! i) ''name'' \<noteq> JStr ''action_save''
              \<and> getprop (actions ! i) ''name'' \<noteq> JStr ''action_cancel'' \<longrightarrow>
              JObj props = actions ! i))"
proof -
  have tot: "\<forall>a \<in> set actions. \<forall>j. \<exists>n. action_node formState createFn a j = Inr n"
  proof (intro ballI allI)
    fix a j assume "a \<in> set actions"
    with assms(1) obtain kvs where a: "a = JObj kvs" "distinct (map fst kvs)" by blast
    from action_props_cases [OF a(2) assms(3)] obtain props where
      "action_props formState (JObj kvs) = Inr (JObj props)" by blast
    then show "\<exists>n. action_node formState createFn a j = Inr n"
      by (simp add: action_node_def a(1) split: option.splits)
  qed
  from map_indexed_total [OF tot, of 0] obtain ns where
    ns: "map_indexed (action_node formState createFn) 0 actions = Inr ns"
        "length ns = length actions"
        "\<forall>j < length actions. action_node formState createFn (actions ! j) (0 + j) = Inr (ns ! j)"
    by (elim exE conjE)
  have "\<forall>i < length actions. \<exists>props.
           ns ! i = (case createFn of
                       Some g \<Rightarrow> Created (g (JFun ''FormAction'') (JObj props))
                     | None \<Rightarrow> Element (JFun ''FormAction'')
                                (object_assign [(''key'', JNum (int i))] props))
         \<and> (getprop (actions ! i) ''name'' = JStr ''action_save'' \<longrightarrow>
              (\<forall>k. obj_get props k =
                 (if k \<in> fst ` set (own_props (actions ! i)) then getprop (actions ! i) k
                  else obj_get [(''type'', JStr ''submit''),
                                (''label'', getprop (actions ! i) ''title''),
                                (''icon'', JStr ''save''),
                                (''loading'', if formState = JUndefined then JBool False
                                              else getprop formState ''submitting''),
                                (''bootstrapButtonStyle'', JStr ''primary'')] k)))
         \<and> (getprop (actions ! i) ''name'' = JStr ''action_cancel'' \<longrightarrow>
              (\<forall>k. obj_get props k =
                 (if k \<in> fst ` set (own_props (actions ! i)) then getprop (actions ! i) k
                  else obj_get [(''type'', JStr ''button''),
                                (''label'', getprop (actions ! i) ''title'')] k)))
         \<and> (getprop (actions ! i) ''name'' \<noteq> JStr ''action_save''
              \<and> getprop (actions ! i) ''name'' \<noteq> JStr ''action_cancel'' \<longrightarrow>
              JObj props = actions ! i)"
  proof (intro allI impI)
    fix i assume i: "i < length actions"
    then have "actions ! i \<in> set actions" by simp
    with assms(1) obtain kvs where a: "actions ! i = JObj kvs" "distinct (map fst kvs)"
      by blast
    from action_props_cases [OF a(2) assms(3)] obtain props where
      props: "action_props formState (JObj kvs) = Inr (JObj props)"
        "obj_get kvs ''name'' = JStr ''action_save'' \<longrightarrow>
          (\<forall>k. obj_get props k =
             (if k \<in> fst ` set kvs then obj_get kvs k
              else obj_get [(''type'', JStr ''submit''),
                            (''label'', obj_get kvs ''title''),
                            (''icon'', JStr ''save''),
                            (''loading'', if formState = JUndefined then JBool False
                                          else getprop formState ''submitting''),
                            (''bootstrapButtonStyle'', JStr ''primary'')] k))"
        "obj_get kvs ''name'' = JStr ''action_cancel'' \<longrightarrow>
          (\<forall>k. obj_get props k =
             (if k \<in> fst ` set kvs then obj_get kvs k
              else obj_get [(''type'', JStr ''button''),
                            (''label'', obj_get kvs ''title'')] k))"
        "obj_get kvs ''name'' \<noteq> JStr ''action_save''
          \<and> obj_get kvs ''name'' \<noteq> JStr ''action_cancel'' \<longrightarrow> props = kvs"
      by (elim exE conjE)
    from ns(3) i have "action_node formState createFn (actions ! i) i = Inr (ns ! i)"
      by simp
    then have "Inr (ns ! i) = action_node formState createFn (JObj kvs) i"
      by (simp add: a(1))
    then have n: "ns ! i = (case createFn of
                       Some g \<Rightarrow> Created (g (JFun ''FormAction'') (JObj props))
                     | None \<Rightarrow> Element (JFun ''FormAction'')
                                (object_assign [(''key'', JNum (int i))] props))"
      by (simp add: action_node_def props(1) split: option.splits)
    show "\<exists>props.
           ns ! i = (case createFn of
                       Some g \<Rightarrow> Created (g (JFun ''FormAction'') (JObj props))
                     | None \<Rightarrow> Element (JFun ''FormAction'')
                                (object_assign [(''key'', JNum (int i))] props))
         \<and> (getprop (actions ! i) ''name'' = JStr ''action_save'' \<longrightarrow>
              (\<forall>k. obj_get props k =
                 (if k \<in> fst ` set (own_props (actions ! i)) then getprop (actions ! i) k
                  else obj_get [(''type'', JStr ''submit''),
                                (''label'', getprop (actions ! i) ''title''),
                                (''icon'', JStr ''save''),
                                (''loading'', if formState = JUndefined then JBool False
                                              else getprop formState ''submitting''),
                                (''bootstrapButtonStyle'', JStr ''primary'')] k)))
         \<and> (getprop (actions ! i) ''name'' = JStr ''action_cancel'' \<longrightarrow>
              (\<forall>k. obj_get props k =
                 (if k \<in> fst ` set (own_props (actions ! i)) then getprop (actions ! i) k
                  else obj_get [(''type'', JStr ''button''),
                                (''label'', getprop (actions ! i) ''title'')] k)))
         \<and> (getprop (actions ! i) ''name'' \<noteq> JStr ''action_save''
              \<and> getprop (actions ! i) ''name'' \<noteq> JStr ''action_cancel'' \<longrightarrow>
              JObj props = actions ! i)"
      unfolding a(1) getprop.simps own_props.simps
      using n props(2,3,4) by (intro exI [of _ props]) simp
  qed
  with ns(1,2) show ?thesis
    unfolding mapActionsToComponents_def Let_def assms(2) [symmetric] by blast
qed


theorem mapActionsToComponents_defaults_witness:
  "\<exists>ns. mapActionsToComponents demo_props (None :: (jsval \<Rightarrow> jsval \<Rightarrow> unit) option) demo_actions
          = Inr ns
     \<and> length ns = 3
     \<and> (\<exists>props. ns ! 0 = Element (JFun ''FormAction'') (object_assign [(''key'', JNum 0)] props)
           \<and> obj_get props ''type'' = JStr ''submit''
           \<and> obj_get props ''label'' = JStr ''Save''
           \<and> obj_get props ''icon'' = JStr ''disk''
           \<and> obj_get props ''loading'' = JBool False
           \<and> obj_get props ''bootstrapButtonStyle'' = JStr ''primary'')
     \<and> (\<exists>props. ns ! 1 = Element (JFun ''FormAction'') (object_assign [(''key'', JNum 1)] props)
           \<and> obj_get props ''type'' = JStr ''button''
           \<and> obj_get props ''label'' = JStr ''Cancel''
           \<and> obj_get props ''icon'' = JUndefined)
     \<and> ns ! 2 = Element (JFun ''FormAction'')
                   (object_assign [(''key'', JNum 2)]
                      [(''name'', JStr ''action_export''), (''title'', JStr ''Export'')])"
proof -
  have h1: "\<forall>a \<in> set demo_actions. \<exists>kvs. a = JObj kvs \<and> distinct (map fst kvs)"
    by (simp add: demo_actions_def)
  have h2: "JUndefined = obj_get (form demo_props) (to_key (getFormId demo_props))"
    by (simp add: demo_props_def obj_get_def getFormId_def getFormSchema_def)
  have h3: "JUndefined \<noteq> JNull" by simp
  from mapActionsToComponents_defaults [OF h1 h2 h3, of None] obtain ns where
    ns: "mapActionsToComponents demo_props (None :: (jsval \<Rightarrow> jsval \<Rightarrow> unit) option) demo_actions
           = Inr ns"
        "length ns = length demo_actions"
    and every: "\<forall>i < length demo_actions. \<exists>props.
           ns ! i = (case (None :: (jsval \<Rightarrow> jsval \<Rightarrow> unit) option) of
                       Some g \<Rightarrow> Created (g (JFun ''FormAction'') (JObj props))
                     | None \<Rightarrow> Element (JFun ''FormAction'')
                                (object_assign [(''key'', JNum (int i))] props))
         \<and> (getprop (demo_actions ! i) ''name'' = JStr ''action_save'' \<longrightarrow>
              (\<forall>k. obj_get props k =
                 (if k \<in> fst ` set (own_props (demo_actions ! i)) then getprop (demo_actions ! i) k
                  else obj_get [(''type'', JStr ''submit''),
                                (''label'', getprop (demo_actions ! i) ''title''),
                                (''icon'', JStr ''save''),
                                (''loading'', if JUndefined = JUndefined then JBool False
                                              else getprop JUndefined ''submitting''),
                                (''bootstrapButtonStyle'', JStr ''primary'')] k)))
         \<and> (getprop (demo_actions ! i) ''name'' = JStr ''action_cancel'' \<longrightarrow>
              (\<forall>k. obj_get props k =
                 (if k \<in> fst ` set (own_props (demo_actions ! i)) then getprop (demo_actions ! i) k
                  else obj_get [(''type'', JStr ''button''),
                                (''label'', getprop (demo_actions ! i) ''title'')] k)))
         \<and> (getprop (demo_actions ! i) ''name'' \<noteq> JStr ''action_save''
              \<and> getprop (demo_actions ! i) ''name'' \<noteq> JStr ''action_cancel'' \<longrightarrow>
              JObj props = demo_actions ! i)"
    by (elim exE conjE)
  have l: "length demo_actions = 3" by (simp add: demo_actions_def)
  from every [rule_format, of 0] obtain p0 where
    p0: "ns ! 0 = Element (JFun ''FormAction'') (object_assign [(''key'', JNum 0)] p0)"
        "\<forall>k. obj_get p0 k =
           (if k \<in> {''name'', ''title'', ''icon''}
            then obj_get [(''name'', JStr ''action_save''), (''title'', JStr ''Save''),
                          (''icon'', JStr ''disk'')] k
            else obj_get [(''type'', JStr ''submit''), (''label'', JStr ''Save''),
                          (''icon'', JStr ''save''), (''loading'', JBool False),
                          (''bootstrapButtonStyle'', JStr ''primary'')] k)"
    by (auto simp add: demo_actions_def obj_get_def)
  from every [rule_format, of 1] obtain p1 where
    p1: "ns ! 1 = Element (JFun ''FormAction'') (object_assign [(''key'', JNum 1)] p1)"
        "\<forall>k. obj_get p1 k =
           (if k \<in> {''name'', ''title''}
            then obj_get [(''name'', JStr ''action_cancel''), (''title'', JStr ''Cancel'')] k
            else obj_get [(''type'', JStr ''button''), (''label'', JStr ''Cancel'')] k)"
    by (auto simp add: demo_actions_def obj_get_def)
  from every [rule_format, of 2] have
    p2: "ns ! 2 = Element (JFun ''FormAction'')
                   (object_assign [(''key'', JNum 2)]
                      [(''name'', JStr ''action_export''), (''title'', JStr ''Export'')])"
    by (auto simp add: demo_actions_def obj_get_def)
  have "obj_get p0 ''type'' = JStr ''submit''" "obj_get p0 ''label'' = JStr ''Save''"
       "obj_get p0 ''icon'' = JStr ''disk''" "obj_get p0 ''loading'' = JBool False"
       "obj_get p0 ''bootstrapButtonStyle'' = JStr ''primary''"
    by (subst p0(2) [rule_format], simp add: obj_get_def)+
  moreover have "obj_get p1 ''type'' = JStr ''button''" "obj_get p1 ''label'' = JStr ''Cancel''"
       "obj_get p1 ''icon'' = JUndefined"
    by (subst p1(2) [rule_format], simp add: obj_get_def)+
  ultimately show ?thesis using ns l p0(1) p1(1) p2 by auto
qed

section \<open>Submitting\<close>

lemma find_by_id_defined:
  assumes "\<forall>sf \<in> set sfs. sf \<noteq> JNull \<and> sf \<noteq> JUndefined" "cur \<noteq> JNull" "cur \<noteq> JUndefined"
  shows "find_by_id sfs cur =
     Inr (case find (\<lambda>sf. strict_eq (getprop sf ''id'') (getprop cur ''id'')) sfs of
            Some sf \<Rightarrow> sf | None \<Rightarrow> JUndefined)"
  using assms by (induction sfs) (simp_all add: get_defined)

lemma find_nonnullish:
  assumes "\<forall>sf \<in> set sfs. sf \<noteq> JNull \<and> sf \<noteq> JUndefined" "find P sfs = Some sf"
  shows "sf \<noteq> JNull \<and> sf \<noteq> JUndefined"
  using assms by (induction sfs) (auto split: if_splits)

lemma distinct_object_assign:
  "distinct (map fst t) \<Longrightarrow> distinct (map fst (object_assign t src))"
  unfolding object_assign_def
  by (induction src arbitrary: t) (auto simp add: distinct_update)

lemma object_assign_Cons:
  "object_assign t ((k, v) # src) = object_assign (AList.update k v t) src"
  by (simp add: object_assign_def)

lemma add_field_value_defined:
  assumes "\<forall>sf \<in> set sfs. sf \<noteq> JNull \<and> sf \<noteq> JUndefined" "cur \<noteq> JNull" "cur \<noteq> JUndefined"
    and "name_by_id sfs (getprop cur ''id'') = Some n" "distinct (map fst prev)"
  shows "add_field_value (JArr sfs) prev cur = Inr (AList.update n (getprop cur ''value'') prev)"
proof -
  from assms(4) obtain sf where
    sf: "find (\<lambda>sf. strict_eq (getprop sf ''id'') (getprop cur ''id'')) sfs = Some sf"
        "n = to_key (getprop sf ''name'')"
    by (auto simp add: name_by_id_def)
  from find_nonnullish [OF assms(1) sf(1)] have nn: "sf \<noteq> JNull" "sf \<noteq> JUndefined" by simp_all
  have p: "object_assign [] prev = prev"
    using object_assign_append [of "[]" prev] assms(5) by simp
  have q: "object_assign prev [(n, getprop cur ''value'')] = AList.update n (getprop cur ''value'') prev"
    by (simp add: object_assign_def)
  show ?thesis
    by (simp add: add_field_value_def find_by_id_defined [OF assms(1,2,3)] sf(1)
          get_defined [OF nn] get_defined [OF assms(2,3)] p sf(2) [symmetric] q)
qed

lemma reduce_add_field_value:
  assumes "\<forall>sf \<in> set sfs. sf \<noteq> JNull \<and> sf \<noteq> JUndefined"
    and "\<forall>cur \<in> set curs. cur \<noteq> JNull \<and> cur \<noteq> JUndefined
           \<and> name_by_id sfs (getprop cur ''id'') \<noteq> None"
    and "distinct (map fst acc)"
  shows "reduce (add_field_value (JArr sfs)) curs acc
           = Inr (object_assign acc (payload_spec sfs curs))"
  using assms(2,3)
proof (induction curs arbitrary: acc)
  case Nil
  then show ?case by (simp add: payload_spec_def object_assign_def)
next
  case (Cons cur curs)
  from Cons.prems(1) obtain n where
    cur: "cur \<noteq> JNull" "cur \<noteq> JUndefined" "name_by_id sfs (getprop cur ''id'') = Some n"
    by auto
  have step: "add_field_value (JArr sfs) acc cur = Inr (AList.update n (getprop cur ''value'') acc)"
    by (rule add_field_value_defined [OF assms(1) cur Cons.prems(2)])
  have d: "distinct (map fst (AList.update n (getprop cur ''value'') acc))"
    using Cons.prems(2) by (simp add: distinct_update)
  have rest: "\<forall>cur \<in> set curs. cur \<noteq> JNull \<and> cur \<noteq> JUndefined
           \<and> name_by_id sfs (getprop cur ''id'') \<noteq> None"
    using Cons.prems(1) by simp
  have "payload_spec sfs (cur # curs) = (n, getprop cur ''value'') # payload_spec sfs curs"
    by (simp add: payload_spec_def cur(3))
  then show ?case
    by (simp add: step Cons.IH [OF rest d] object_assign_Cons)
qed


text \<open>
  C3. \<open>handleSubmit\<close> computes the payload from the form's state fields: each field's
  value is stored under the name of the first schema field with the same id. When every
  state field has such a schema field, the payload is the mapping that \<open>payload_spec\<close>
  describes (a name that occurs twice keeps the later value), and it is \<open>payload_spec\<close>
  itself when the names differ. By default the event's native effect is suppressed and
  the form is submitted with the payload; a caller's handler receives the payload and
  the submitting closure instead.
\<close>

theorem handleSubmit_payload:
  assumes "get (obj_get (schemas p) (schemaUrl p)) ''schema'' = Inr schema"
    and "get schema ''fields'' = Inr (JArr schemaFields)"
    and "get (obj_get (form p) (to_key (getFormId p))) ''fields'' = Inr (JArr stateFields)"
    and "\<forall>sf \<in> set schemaFields. sf \<noteq> JNull \<and> sf \<noteq> JUndefined"
    and "\<forall>cur \<in> set stateFields. cur \<noteq> JNull \<and> cur \<noteq> JUndefined
           \<and> name_by_id schemaFields (getprop cur ''id'') \<noteq> None"
  shows "\<exists>values. fieldValues p = Inr values
     \<and> map_of values = map_of (rev (payload_spec schemaFields stateFields))
     \<and> (distinct (map fst (payload_spec schemaFields stateFields)) \<longrightarrow>
          values = payload_spec schemaFields stateFields)
     \<and> handleSubmit p c None event
          = Inr [PreventDefault, SubmitForm (submitApi c) (getFormId p) (JObj values)]
     \<and> handleSubmit p c (Some h) event
          = Inr (h event (JObj values) [SubmitForm (submitApi c) (getFormId p) (JObj values)])"
proof -
  let ?payload = "object_assign [] (payload_spec schemaFields stateFields)"
  have fv: "fieldValues p = Inr ?payload"
    using reduce_add_field_value [OF assms(4,5), of "[]"]
    by (simp add: fieldValues_def assms(1,2,3))
  have m: "map_of ?payload = map_of (rev (payload_spec schemaFields stateFields))"
    by (simp add: map_of_object_assign)
  have d: "distinct (map fst (payload_spec schemaFields stateFields)) \<longrightarrow>
          ?payload = payload_spec schemaFields stateFields"
    using object_assign_append [of "[]" "payload_spec schemaFields stateFields"] by simp
  have "handleSubmit p c None event
          = Inr [PreventDefault, SubmitForm (submitApi c) (getFormId p) (JObj ?payload)]"
    by (simp add: handleSubmit_def fv)
  moreover have "handleSubmit p c (Some h) event
          = Inr (h event (JObj ?payload) [SubmitForm (submitApi c) (getFormId p) (JObj ?payload)])"
    by (simp add: handleSubmit_def fv)
  ultimately show ?thesis using fv m d by blast
qed

theorem handleSubmit_payload_witness:
  "fieldValues demo_submit_props = Inr [(''Title'', JStr ''Hello''), (''Content'', JStr ''World'')]
   \<and> handleSubmit demo_submit_props constructor None ()
       = Inr [PreventDefault,
              SubmitForm None (JStr ''form1'')
                (JObj [(''Title'', JStr ''Hello''), (''Content'', JStr ''World'')])]"
proof -
  let ?sfs = "[JObj [(''id'', JNum 1), (''name'', JStr ''Title'')],
               JObj [(''id'', JNum 2), (''name'', JStr ''Content'')]]"
  let ?curs = "[JObj [(''id'', JNum 1), (''value'', JStr ''Hello'')],
                JObj [(''id'', JNum 2), (''value'', JStr ''World'')]]"
  have id: "getFormId demo_submit_props = JStr ''form1''"
    by (simp add: getFormId_def getFormSchema_def demo_submit_props_def obj_get_def)
  have a1: "get (obj_get (schemas demo_submit_props) (schemaUrl demo_submit_props)) ''schema''
              = Inr (JObj [(''fields'', JArr ?sfs)])"
    by (simp add: demo_submit_props_def obj_get_def)
  have a2: "get (JObj [(''fields'', JArr ?sfs)]) ''fields'' = Inr (JArr ?sfs)"
    by (simp add: obj_get_def)
  have a3: "get (obj_get (form demo_submit_props) (to_key (getFormId demo_submit_props))) ''fields''
              = Inr (JArr ?curs)"
    by (simp add: id) (simp add: demo_submit_props_def obj_get_def)
  have a4: "\<forall>sf \<in> set ?sfs. sf \<noteq> JNull \<and> sf \<noteq> JUndefined" by simp
  have a5: "\<forall>cur \<in> set ?curs. cur \<noteq> JNull \<and> cur \<noteq> JUndefined
           \<and> name_by_id ?sfs (getprop cur ''id'') \<noteq> None"
    by (simp add: name_by_id_def obj_get_def)
  have ps: "payload_spec ?sfs ?curs = [(''Title'', JStr ''Hello''), (''Content'', JStr ''World'')]"
    by (simp add: payload_spec_def name_by_id_def obj_get_def)
  from handleSubmit_payload [OF a1 a2 a3 a4 a5, of constructor "()"]
  show ?thesis unfolding ps id by (auto simp add: constructor_def)
qed

section \<open>Rendering\<close>

text \<open>
  C8. When the store has no schema under the configured URL, or the schema found there
  is falsy or has no truthy \<open>id\<close>, \<open>render\<close> returns \<open>null\<close> and raises nothing.
\<close>

theorem render_nothing_without_schema:
  "(map_of (schemas p) (schemaUrl p) = None \<longrightarrow> render p = Inr NullNode)
   \<and> (\<not> truthy (getFormSchema p) \<longrightarrow> render p = Inr NullNode)
   \<and> (\<not> truthy (getprop (getFormSchema p) ''id'') \<longrightarrow> render p = Inr NullNode)"
  by (simp add: render_def getFormId_def getFormSchema_def obj_get_def Let_def)

theorem render_nothing_without_schema_witness:
  "render demo_props = Inr NullNode"
  using render_nothing_without_schema [of demo_props]
  by (simp add: demo_props_def)

lemma clone_id [simp]: "clone v = v"
proof (induction v)
  case (JArr xs)
  then show ?case by (simp add: map_idI)
next
  case (JObj kvs)
  have "map (\<lambda>kv. (fst kv, clone (snd kv))) kvs = map (\<lambda>kv. kv) kvs"
  proof (rule map_cong [OF refl])
    fix kv assume "kv \<in> set kvs"
    with JObj show "(fst kv, clone (snd kv)) = kv" by (cases kv) auto
  qed
  then show ?case by simp
qed simp_all

lemma merge_recursive_not_object:
  "typeOf base \<noteq> ''object'' \<Longrightarrow> merge_recursive base ext = ext"
  by (cases base) (simp_all add: merge_recursive.simps)

lemma obj_get_update:
  "obj_get (AList.update k v al) k' = (if k' = k then v else obj_get al k')"
  by (simp add: obj_get_def update_conv')

lemma obj_get_absent: "k \<notin> fst ` set al \<Longrightarrow> obj_get al k = JUndefined"
proof -
  assume "k \<notin> fst ` set al"
  then have "map_of al k = None" by (simp add: map_of_eq_None_iff)
  then show ?thesis by (simp add: obj_get_def)
qed

lemma first_pass:
  "distinct (map fst (t @ src)) \<Longrightarrow> foldl merge_step t src = t @ src"
proof (induction src arbitrary: t)
  case Nil
  then show ?case by simp
next
  case (Cons kv src)
  from Cons.prems have k: "fst kv \<notin> fst ` set t" by auto
  have "merge_step t kv = t @ [kv]"
    by (simp add: merge_step_def obj_get_absent [OF k] merge_recursive_not_object
          update_fresh [OF k])
  moreover from Cons.prems have "distinct (map fst ((t @ [kv]) @ src))" by simp
  ultimately show ?case using Cons.IH [of "t @ [kv]"] by simp
qed

lemma recursive_two:
  assumes "distinct (map fst skvs)"
  shows "recursive (JBool True) [JObj skvs, JObj ekvs] = JObj (foldl merge_step skvs ekvs)"
proof -
  have "foldl merge_step [] skvs = skvs" using first_pass [of "[]" skvs] assms by simp
  then show ?thesis
    by (simp add: recursive_def merge_lib_def Let_def merge_step_def [abs_def])
qed


lemma typeOf_object: "(typeOf v = ''object'') = (\<exists>kvs. v = JObj kvs)"
  by (cases v) simp_all

lemma obj_get_member:
  "distinct (map fst kvs) \<Longrightarrow> kv \<in> set kvs \<Longrightarrow> obj_get kvs (fst kv) = snd kv"
  by (cases kv) (simp add: obj_get_def)

lemma covers_refl: "wf_val v \<Longrightarrow> covers v v"
proof (induction v)
  case (JObj kvs)
  have "\<forall>kv \<in> set kvs. covers (getprop (JObj kvs) (fst kv)) (snd kv)"
  proof
    fix kv assume kv: "kv \<in> set kvs"
    with JObj.prems have "obj_get kvs (fst kv) = snd kv" "wf_val (snd kv)"
      by (simp_all add: obj_get_member)
    moreover have "snd kv \<in> Basic_BNFs.snds kv" by (cases kv) simp
    ultimately show "covers (getprop (JObj kvs) (fst kv)) (snd kv)"
      using JObj.IH [OF kv] by simp
  qed
  then show ?case by simp
qed simp_all

lemma merge_recursive_objects:
  "merge_recursive (JObj b) (JObj e) = JObj (foldl assign_step b e)"
  by (subst merge_recursive.simps) (simp add: assign_step_def [abs_def])

lemma fold_assign_untouched:
  "k \<notin> fst ` set e \<Longrightarrow> obj_get (foldl assign_step b e) k = obj_get b k"
  by (induction e arbitrary: b) (auto simp add: assign_step_def obj_get_update)

lemma fold_assign_lookup:
  assumes "distinct (map fst e)" "kv \<in> set e"
  shows "\<exists>r. obj_get (foldl assign_step b e) (fst kv) = obj_get (assign_step r kv) (fst kv)"
  using assms
proof (induction e arbitrary: b)
  case Nil
  then show ?case by simp
next
  case (Cons x e)
  show ?case
  proof (cases "kv = x")
    case True
    with Cons.prems have "fst kv \<notin> fst ` set e" by auto
    then have "obj_get (foldl assign_step (assign_step b x) e) (fst kv)
                 = obj_get (assign_step b x) (fst kv)"
      by (rule fold_assign_untouched)
    with True show ?thesis by auto
  next
    case False
    with Cons.prems have "kv \<in> set e" "distinct (map fst e)" by simp_all
    from Cons.IH [OF this(2,1), of "assign_step b x"] show ?thesis by simp
  qed
qed

lemma merge_recursive_covers:
  "wf_val (JObj e) \<Longrightarrow> covers (merge_recursive (JObj b) (JObj e)) (JObj e)"
proof (induction "JObj e" arbitrary: b e)
  case (JObj e)
  have "\<forall>kv \<in> set e. covers (obj_get (foldl assign_step b e) (fst kv)) (snd kv)"
  proof
    fix kv assume kv: "kv \<in> set e"
    from JObj.prems have d: "distinct (map fst e)" and w: "wf_val (snd kv)"
      using kv by simp_all
    from fold_assign_lookup [OF d kv, of b] obtain r where
      r: "obj_get (foldl assign_step b e) (fst kv) = obj_get (assign_step r kv) (fst kv)"
      by blast
    have s: "snd kv \<in> Basic_BNFs.snds kv" by (cases kv) simp
    show "covers (obj_get (foldl assign_step b e) (fst kv)) (snd kv)"
    proof (cases "typeOf (obj_get r (fst kv)) = ''object'' \<and> typeOf (snd kv) = ''object''")
      case True
      then obtain b' e' where be: "obj_get r (fst kv) = JObj b'" "snd kv = JObj e'"
        by (auto simp add: typeOf_object)
      from s be(2) have "JObj e' \<in> Basic_BNFs.snds kv" by simp
      from JObj.hyps [OF kv this, of b'] w be(2)
      have "covers (merge_recursive (JObj b') (JObj e')) (JObj e')" by simp
      then show ?thesis
        using True be by (simp add: r assign_step_def obj_get_update)
    next
      case False
      then show ?thesis
        using covers_refl [OF w] by (auto simp add: r assign_step_def obj_get_update)
    qed
  qed
  then show ?case by (simp add: merge_recursive_objects)
qed


lemma mergeFieldData_object:
  assumes "distinct (map fst skvs)" "st \<noteq> JNull" "st \<noteq> JUndefined"
  shows "mergeFieldData (JObj skvs) st =
     Inr (JObj (foldl merge_step skvs
                  [(''data'', getprop st ''data''), (''messages'', getprop st ''messages''),
                   (''valid'', getprop st ''valid''), (''value'', getprop st ''value'')]))"
  by (simp only: mergeFieldData_def get_defined [OF assms(2,3)] andThen_simps
        recursive_two [OF assms(1)])

lemma merged_lookup:
  fixes skvs d m v vl
  defines "r \<equiv> foldl merge_step skvs
                  [(''data'', d), (''messages'', m), (''valid'', v), (''value'', vl)]"
  shows "fst ` set r = fst ` set skvs \<union> {''data'', ''messages'', ''valid'', ''value''}"
    and "obj_get r ''data'' = merge_recursive (obj_get skvs ''data'') d"
    and "obj_get r ''messages'' = merge_recursive (obj_get skvs ''messages'') m"
    and "obj_get r ''valid'' = merge_recursive (obj_get skvs ''valid'') v"
    and "obj_get r ''value'' = merge_recursive (obj_get skvs ''value'') vl"
    and "k \<notin> {''data'', ''messages'', ''valid'', ''value''} \<Longrightarrow> obj_get r k = obj_get skvs k"
  unfolding r_def
  by (auto simp add: merge_step_def obj_get_update dom_update)

lemma merge_recursive_precedence:
  assumes "typeOf e = ''object''" "wf_val e"
  shows "covers (merge_recursive b e) e"
proof (cases "typeOf b = ''object''")
  case True
  from True assms(1) obtain bk ek where "b = JObj bk" "e = JObj ek"
    by (auto simp add: typeOf_object)
  with assms(2) merge_recursive_covers [of ek bk] show ?thesis by simp
next
  case False
  with assms(2) show ?thesis by (simp add: merge_recursive_not_object covers_refl)
qed

lemma mergeFieldData_entry:
  assumes "distinct (map fst skvs)" "st \<noteq> JNull" "st \<noteq> JUndefined"
  shows "\<exists>entry. mergeFieldData (JObj skvs) st = Inr entry \<and> merged_entry (JObj skvs) st entry"
proof -
  define r where "r = foldl merge_step skvs
                  [(''data'', getprop st ''data''), (''messages'', getprop st ''messages''),
                   (''valid'', getprop st ''valid''), (''value'', getprop st ''value'')]"
  note facts = merged_lookup [where skvs=skvs and d="getprop st ''data''"
                                and m="getprop st ''messages''" and v="getprop st ''valid''"
                                and vl="getprop st ''value''", folded r_def]
  have four: "obj_get r k = merge_recursive (obj_get skvs k) (getprop st k)"
    if "k \<in> {''data'', ''messages'', ''valid'', ''value''}" for k
    using that facts(2-5) by auto
  have "merged_entry (JObj skvs) st (JObj r)"
    unfolding merged_entry_def
  proof (intro conjI allI impI ballI)
    show "typeOf (JObj r) = ''object''" by simp
    show "set (map fst (own_props (JObj r)))
            = set (map fst (own_props (JObj skvs))) \<union> {''data'', ''messages'', ''valid'', ''value''}"
      using facts(1) by simp
  next
    fix k :: string assume "k \<notin> {''data'', ''messages'', ''valid'', ''value''}"
    then show "getprop (JObj r) k = getprop (JObj skvs) k"
      using facts(6) [where k=k] by simp
  next
    fix k :: string assume k: "k \<in> {''data'', ''messages'', ''valid'', ''value''}"
    from four [OF k]
    show e: "getprop (JObj r) k = merge_recursive (getprop (JObj skvs) k) (getprop st k)"
      by simp
    show "getprop (JObj r) k = getprop st k" if "typeOf (getprop (JObj skvs) k) \<noteq> ''object''"
      using that e by (simp add: merge_recursive_not_object)
    show "covers (getprop (JObj r) k) (getprop st k)"
      if "typeOf (getprop st k) = ''object'' \<and> wf_val (getprop st k)"
      using that e by (simp add: merge_recursive_precedence)
  qed
  with mergeFieldData_object [OF assms] show ?thesis unfolding r_def by blast
qed

lemma map_indexed_nth:
  assumes "\<forall>j < length xs. \<exists>y. f (xs ! j) (i + j) = Inr y"
  shows "\<exists>ys. map_indexed f i xs = Inr ys \<and> length ys = length xs
           \<and> (\<forall>j < length xs. f (xs ! j) (i + j) = Inr (ys ! j))"
  using assms
proof (induction xs arbitrary: i)
  case Nil
  then show ?case by simp
next
  case (Cons x xs)
  from Cons.prems [rule_format, of 0] obtain y where y: "f x i = Inr y" by auto
  have "\<forall>j < length xs. \<exists>y. f (xs ! j) (Suc i + j) = Inr y"
  proof (intro allI impI)
    fix j assume "j < length xs"
    then have "Suc j < length (x # xs)" by simp
    from Cons.prems [rule_format, OF this] show "\<exists>y. f (xs ! j) (Suc i + j) = Inr y" by simp
  qed
  from Cons.IH [OF this] obtain ys where
    ys: "map_indexed f (Suc i) xs = Inr ys" "length ys = length xs"
        "\<forall>j < length xs. f (xs ! j) (Suc i + j) = Inr (ys ! j)" by blast
  have "\<forall>j < length (x # xs). f ((x # xs) ! j) (i + j) = Inr ((y # ys) ! j)"
  proof (intro allI impI)
    fix j assume "j < length (x # xs)"
    then show "f ((x # xs) ! j) (i + j) = Inr ((y # ys) ! j)"
      using y ys(3) by (cases j) auto
  qed
  with y ys show ?case by simp
qed


text \<open>
  C2, as the code has it. With a schema of \<open>N\<close> field definitions and a form state of \<open>N\<close>
  entries in the store, \<open>render\<close> passes \<open>N\<close> fields to the form, and field \<open>i\<close> is
  \<open>mergeFieldData\<close> of schema field \<open>i\<close> and state entry \<open>i\<close>, which is a \<open>merged_entry\<close>:
  it has the structural keys and the keys \<open>data\<close>, \<open>messages\<close>, \<open>valid\<close>, \<open>value\<close>, whether or
  not the state entry has them, and no other key of the state entry; outside those four
  keys it keeps the structural values; under each of the four it holds the recursive
  merge, in which the state's value replaces a structural value that is not a plain
  object and is covered by the result when it is a plain object itself.
\<close>

theorem render_merges_fields:
  assumes "getFormSchema p = JObj sch" and "truthy (obj_get sch ''id'')"
    and "obj_get sch ''schema'' = JObj sc"
    and "obj_get sc ''attributes'' \<noteq> JNull" and "obj_get sc ''attributes'' \<noteq> JUndefined"
    and "obj_get sc ''fields'' = JArr fs"
    and "obj_get (form p) (to_key (obj_get sch ''id'')) = JObj st"
    and "obj_get st ''fields'' = JArr sts"
    and "length sts = length fs"
    and "\<forall>f \<in> set fs. \<exists>kvs. f = JObj kvs \<and> distinct (map fst kvs)"
    and "\<forall>s \<in> set sts. s \<noteq> JNull \<and> s \<noteq> JUndefined"
  shows "\<exists>formProps merged.
           render p = Inr (Element (JFun ''Form'') formProps)
         \<and> obj_get formProps ''fields'' = JArr merged
         \<and> length merged = length fs
         \<and> (\<forall>i < length fs.
               mergeFieldData (fs ! i) (sts ! i) = Inr (merged ! i)
             \<and> merged_entry (fs ! i) (sts ! i) (merged ! i))"
proof -
  note getindex.simps [simp del]
  let ?mf = "\<lambda>f i. mergeFieldData f (getindex (JArr sts) i)"
  have each: "\<exists>entry. ?mf (fs ! j) j = Inr entry \<and> merged_entry (fs ! j) (sts ! j) entry"
    if j: "j < length fs" for j
  proof -
    from j have "fs ! j \<in> set fs" by simp
    with assms(10) obtain kvs where kvs: "fs ! j = JObj kvs" "distinct (map fst kvs)" by blast
    from j assms(9) have "sts ! j \<in> set sts" by simp
    with assms(11) have nn: "sts ! j \<noteq> JNull" "sts ! j \<noteq> JUndefined" by simp_all
    from j assms(9) have g: "getindex (JArr sts) j = sts ! j"
      by (simp add: getindex.simps)
    from mergeFieldData_entry [OF kvs(2) nn] show ?thesis unfolding g kvs(1) .
  qed
  then have "\<forall>j < length fs. \<exists>y. ?mf (fs ! j) (0 + j) = Inr y" by auto
  from map_indexed_nth [OF this] obtain merged where
    m: "map_indexed ?mf 0 fs = Inr merged" "length merged = length fs"
       "\<forall>j < length fs. ?mf (fs ! j) (0 + j) = Inr (merged ! j)"
    by blast
  have entries: "\<forall>i < length fs.
               mergeFieldData (fs ! i) (sts ! i) = Inr (merged ! i)
             \<and> merged_entry (fs ! i) (sts ! i) (merged ! i)"
  proof (intro allI impI)
    fix i assume i: "i < length fs"
    from i assms(9) have g: "getindex (JArr sts) i = sts ! i"
      by (simp add: getindex.simps)
    from m(3) i have "mergeFieldData (fs ! i) (getindex (JArr sts) i) = Inr (merged ! i)"
      by simp
    then have e: "mergeFieldData (fs ! i) (sts ! i) = Inr (merged ! i)"
      unfolding g .
    from each [OF i] obtain entry where
      "mergeFieldData (fs ! i) (sts ! i) = Inr entry" "merged_entry (fs ! i) (sts ! i) entry"
      unfolding g by blast
    with e show "mergeFieldData (fs ! i) (sts ! i) = Inr (merged ! i)
             \<and> merged_entry (fs ! i) (sts ! i) (merged ! i)"
      by simp
  qed
  have id: "getFormId p = obj_get sch ''id''"
    by (simp add: getFormId_def assms(1))
  have "\<exists>attributes. render p =
          Inr (Element (JFun ''Form'')
                 [(''actions'', obj_get sc ''actions''),
                  (''attributes'', attributes),
                  (''componentWillUnmount'', JFun ''removeForm''),
                  (''data'', obj_get sc ''data''),
                  (''fields'', JArr merged),
                  (''formId'', obj_get sch ''id''),
                  (''handleSubmit'', JFun ''handleSubmit''),
                  (''mapActionsToComponents'', JFun ''mapActionsToComponents''),
                  (''mapFieldsToComponents'', JFun ''mapFieldsToComponents'')])"
    using m(1)
    by (simp add: render_def id assms(1,2,3,6,7,8) get_defined [OF assms(4,5)] Let_def)
  then obtain formProps where
    "render p = Inr (Element (JFun ''Form'') formProps)"
    "obj_get formProps ''fields'' = JArr merged"
    by (auto simp add: obj_get_def)
  with m(2) entries show ?thesis by blast
qed


theorem render_merges_fields_witness:
  "\<exists>formProps merged.
     render demo_render_props = Inr (Element (JFun ''Form'') formProps)
     \<and> obj_get formProps ''fields'' = JArr merged
     \<and> length merged = 2
     \<and> merged_entry (JObj [(''id'', JNum 1), (''name'', JStr ''Title'')])
          (JObj [(''id'', JNum 1), (''value'', JStr ''Hello''), (''extra'', JBool True)])
          (merged ! 0)"
proof -
  let ?fs = "[JObj [(''id'', JNum 1), (''name'', JStr ''Title'')],
              JObj [(''id'', JNum 2), (''name'', JStr ''Content'')]]"
  let ?sts = "[JObj [(''id'', JNum 1), (''value'', JStr ''Hello''), (''extra'', JBool True)],
               JObj [(''id'', JNum 2), (''value'', JStr ''World'')]]"
  let ?sc = "[(''attributes'', JObj [(''class'', JStr ''cms''), (''action'', JStr ''/save'')]),
              (''actions'', JArr []), (''fields'', JArr ?fs)]"
  let ?sch = "[(''id'', JStr ''form1''), (''schema'', JObj ?sc)]"
  let ?st = "[(''id'', JStr ''form1''), (''fields'', JArr ?sts)]"
  have a1: "getFormSchema demo_render_props = JObj ?sch"
    by (simp add: getFormSchema_def demo_render_props_def obj_get_def)
  have a2: "truthy (obj_get ?sch ''id'')" by (simp add: obj_get_def)
  have a3: "obj_get ?sch ''schema'' = JObj ?sc" by (simp add: obj_get_def)
  have a4: "obj_get ?sc ''attributes'' \<noteq> JNull" by (simp add: obj_get_def)
  have a5: "obj_get ?sc ''attributes'' \<noteq> JUndefined" by (simp add: obj_get_def)
  have a6: "obj_get ?sc ''fields'' = JArr ?fs" by (simp add: obj_get_def)
  have a7: "obj_get (form demo_render_props) (to_key (obj_get ?sch ''id'')) = JObj ?st"
    by (simp add: demo_render_props_def obj_get_def)
  have a8: "obj_get ?st ''fields'' = JArr ?sts" by (simp add: obj_get_def)
  have a9: "length ?sts = length ?fs" by simp
  have a10: "\<forall>f \<in> set ?fs. \<exists>kvs. f = JObj kvs \<and> distinct (map fst kvs)" by simp
  have a11: "\<forall>s \<in> set ?sts. s \<noteq> JNull \<and> s \<noteq> JUndefined" by simp
  from render_merges_fields [OF a1 a2 a3 a4 a5 a6 a7 a8 a9 a10 a11]
  obtain formProps merged where
    r: "render demo_render_props = Inr (Element (JFun ''Form'') formProps)"
       "obj_get formProps ''fields'' = JArr merged"
       "length merged = length ?fs"
    and e: "\<forall>i < length ?fs.
               mergeFieldData (?fs ! i) (?sts ! i) = Inr (merged ! i)
             \<and> merged_entry (?fs ! i) (?sts ! i) (merged ! i)"
    by blast
  from e [rule_format, of 0] have "merged_entry (?fs ! 0) (?sts ! 0) (merged ! 0)" by simp
  then have "merged_entry (JObj [(''id'', JNum 1), (''name'', JStr ''Title'')])
          (JObj [(''id'', JNum 1), (''value'', JStr ''Hello''), (''extra'', JBool True)])
          (merged ! 0)" by simp
  with r show ?thesis by auto
qed

text \<open>
  C2, as the claim states it, fails: a state entry with a key other than the four
  (here \<open>extra\<close>) does not pass that key on, so the keys of the merged field are not the
  union of the structural keys and the state entry's keys.
\<close>

theorem merged_keys_counterexample:
  "rendered_fields demo_render_props =
     JArr [JObj [(''id'', JNum 1), (''name'', JStr ''Title''), (''data'', JUndefined),
                 (''messages'', JUndefined), (''valid'', JUndefined), (''value'', JStr ''Hello'')],
           JObj [(''id'', JNum 2), (''name'', JStr ''Content''), (''data'', JUndefined),
                 (''messages'', JUndefined), (''valid'', JUndefined), (''value'', JStr ''World'')]]
   \<and> set (map fst (own_props (getindex (rendered_fields demo_render_props) 0)))
       \<noteq> set (map fst (own_props (JObj [(''id'', JNum 1), (''name'', JStr ''Title'')])))
         \<union> set (map fst (own_props
                  (JObj [(''id'', JNum 1), (''value'', JStr ''Hello''), (''extra'', JBool True)])))"
proof -
  have id: "getFormId demo_render_props = JStr ''form1''"
    by (simp add: getFormId_def getFormSchema_def demo_render_props_def obj_get_def)
  have sch: "getFormSchema demo_render_props =
     JObj [(''id'', JStr ''form1''),
           (''schema'', JObj [
              (''attributes'', JObj [(''class'', JStr ''cms''), (''action'', JStr ''/save'')]),
              (''actions'', JArr []),
              (''fields'', JArr [JObj [(''id'', JNum 1), (''name'', JStr ''Title'')],
                                 JObj [(''id'', JNum 2), (''name'', JStr ''Content'')]])])]"
    by (simp add: getFormSchema_def demo_render_props_def obj_get_def)
  have st: "obj_get (form demo_render_props) ''form1'' =
     JObj [(''id'', JStr ''form1''),
           (''fields'',
            JArr [JObj [(''id'', JNum 1), (''value'', JStr ''Hello''), (''extra'', JBool True)],
                  JObj [(''id'', JNum 2), (''value'', JStr ''World'')]])]"
    by (simp add: demo_render_props_def obj_get_def)
  have m0: "mergeFieldData (JObj [(''id'', JNum 1), (''name'', JStr ''Title'')])
          (JObj [(''id'', JNum 1), (''value'', JStr ''Hello''), (''extra'', JBool True)])
     = Inr (JObj [(''id'', JNum 1), (''name'', JStr ''Title''), (''data'', JUndefined),
                  (''messages'', JUndefined), (''valid'', JUndefined), (''value'', JStr ''Hello'')])"
    by (simp add: mergeFieldData_def recursive_def merge_lib_def obj_get_def
          merge_recursive_not_object)
  have m1: "mergeFieldData (JObj [(''id'', JNum 2), (''name'', JStr ''Content'')])
          (JObj [(''id'', JNum 2), (''value'', JStr ''World'')])
     = Inr (JObj [(''id'', JNum 2), (''name'', JStr ''Content''), (''data'', JUndefined),
                  (''messages'', JUndefined), (''valid'', JUndefined), (''value'', JStr ''World'')])"
    by (simp add: mergeFieldData_def recursive_def merge_lib_def obj_get_def
          merge_recursive_not_object)
  have e: "rendered_fields demo_render_props =
     JArr [JObj [(''id'', JNum 1), (''name'', JStr ''Title''), (''data'', JUndefined),
                 (''messages'', JUndefined), (''valid'', JUndefined), (''value'', JStr ''Hello'')],
           JObj [(''id'', JNum 2), (''name'', JStr ''Content''), (''data'', JUndefined),
                 (''messages'', JUndefined), (''valid'', JUndefined), (''value'', JStr ''World'')]]"
    unfolding rendered_fields_def render_def id sch Let_def
    by (simp add: st) (simp add: obj_get_def m0 m1)
  have "''extra'' \<notin> set (map fst (own_props (getindex (rendered_fields demo_render_props) 0)))"
    unfolding e by simp
  moreover have "''extra'' \<in> set (map fst (own_props (JObj [(''id'', JNum 1), (''name'', JStr ''Title'')])))
         \<union> set (map fst (own_props
                  (JObj [(''id'', JNum 1), (''value'', JStr ''Hello''), (''extra'', JBool True)])))"
    by simp
  ultimately have "set (map fst (own_props (getindex (rendered_fields demo_render_props) 0)))
       \<noteq> set (map fst (own_props (JObj [(''id'', JNum 1), (''name'', JStr ''Title'')])))
         \<union> set (map fst (own_props
                  (JObj [(''id'', JNum 1), (''value'', JStr ''Hello''), (''extra'', JBool True)])))"
    by metis
  with e show ?thesis by (intro conjI)
qed



section \<open>mergeFieldData leaves its arguments alone\<close>

lemma fresh_simps [simp]:
  "fresh L HUndefined" "fresh L HNull" "fresh L (HBool b)" "fresh L (HNum i)" "fresh L (HStr s)"
  "fresh L (HRef a) = (L \<le> a)"
  by (simp_all add: fresh_def)

lemma kept_refl [simp]: "kept L h h"
  by (simp add: kept_def)

lemma kept_trans: "kept L h h1 \<Longrightarrow> kept L h1 h2 \<Longrightarrow> kept L h h2"
  by (auto simp add: kept_def)

lemma is_plain_with_props [simp]: "is_plain (with_props c kvs) = is_plain c"
  by (cases c) simp_all

lemma props_of_with_props [simp]: "props_of (with_props c kvs) = kvs"
  by (cases c) simp_all

lemma setprop_kept: "fresh L target \<Longrightarrow> kept L h (setprop_st h target k v)"
  by (cases target) (auto simp add: kept_def nth_list_update)

lemma length_setprop [simp]: "length (setprop_st h target k v) = length h"
  by (cases target) simp_all

lemma in_update: "kv \<in> set (AList.update k v al) \<Longrightarrow> kv = (k, v) \<or> kv \<in> set al"
  by (induction al) (auto split: if_splits)

lemma setprop_closed:
  assumes "closed L h" "fresh L v"
  shows "closed L (setprop_st h target k v)"
proof (cases target)
  case (HRef b)
  show ?thesis
    unfolding closed_def
  proof (intro allI impI ballI)
    fix a kv
    assume a: "L \<le> a" "a < length (setprop_st h target k v)"
      and kv: "kv \<in> set (props_of (setprop_st h target k v ! a))"
    from a have al: "a < length h" by simp
    show "fresh L (snd kv)"
    proof (cases "a = b")
      case True
      with kv al HRef have "kv \<in> set (AList.update k v (props_of (h ! a)))" by simp
      then have "kv = (k, v) \<or> kv \<in> set (props_of (h ! a))" by (rule in_update)
      with assms a(1) al show ?thesis by (auto simp add: closed_def)
    next
      case False
      with kv al HRef have "kv \<in> set (props_of (h ! a))" by (simp split: if_splits)
      with assms(1) a(1) al show ?thesis by (auto simp add: closed_def)
    qed
  qed
qed (use assms in simp_all)

lemma getprop_fresh:
  assumes "closed L h" "fresh L v"
  shows "fresh L (getprop_st h v k)"
proof (cases "map_of (props_st h v) k")
  case None
  then show ?thesis by (simp add: getprop_st_def)
next
  case (Some x)
  then have m: "(k, x) \<in> set (props_st h v)" by (rule map_of_SomeD)
  have "fresh L x"
  proof (cases v)
    case (HRef a)
    with m have "a < length h" "(k, x) \<in> set (props_of (h ! a))" by (simp_all split: if_splits)
    with assms HRef show ?thesis by (force simp add: closed_def)
  next
    case (HStr s)
    with m show ?thesis by auto
  qed (use m in simp_all)
  with Some show ?thesis by (simp add: getprop_st_def)
qed

lemma append_kept: "L \<le> length h \<Longrightarrow> kept L h (h @ [c])"
  by (simp add: kept_def nth_append)

lemma append_closed:
  assumes "closed L h" "\<forall>kv \<in> set (props_of c). fresh L (snd kv)"
  shows "closed L (h @ [c])"
  unfolding closed_def
proof (intro allI impI ballI)
  fix a kv assume a: "L \<le> a" "a < length (h @ [c])" and kv: "kv \<in> set (props_of ((h @ [c]) ! a))"
  show "fresh L (snd kv)"
  proof (cases "a < length h")
    case True
    with kv assms(1) a(1) show ?thesis by (auto simp add: closed_def nth_append)
  next
    case False
    with a(2) have "a = length h" by simp
    with kv assms(2) show ?thesis by simp
  qed
qed


lemma outcome_return: "closed L h \<Longrightarrow> fresh L v \<Longrightarrow> outcome L h (Inr v, h)"
  by (simp add: outcome_def)

lemma outcome_range: "closed L h \<Longrightarrow> outcome L h (Inl RangeError, h)"
  by (simp add: outcome_def)

lemma outcome_kept: "kept L h h1 \<Longrightarrow> outcome L h1 res \<Longrightarrow> outcome L h res"
  by (auto simp add: outcome_def intro: kept_trans)

lemma kept_length: "kept L h h' \<Longrightarrow> length h \<le> length h'"
  by (simp add: kept_def)

lemma clone_outcome:
  "L \<le> length h \<Longrightarrow> closed L h \<Longrightarrow> outcome L h (clone_st n input h)"
  "fresh L out \<Longrightarrow> L \<le> length h \<Longrightarrow> closed L h \<Longrightarrow>
     outcome L h (clone_into n input out keys h)"
proof (induction n input h and n input out keys h rule: clone_st_clone_into.induct)
  case (1 input h)
  then show ?case by (simp add: outcome_range)
next
  case (2 n input h)
  have n: "fresh L (HRef (length h))" using "2.prems"(1) by simp
  have l: "L \<le> length (h @ [c])" for c using "2.prems"(1) by simp
  have c: "closed L (h @ [ArrayObject []])" "closed L (h @ [PlainObject []])"
    using "2.prems"(2) by (simp_all add: append_closed)
  show ?case
  proof (cases "typeOf_st h input = ''array''")
    case True
    from "2.IH"(1) [OF True n l c(1)] append_kept [OF "2.prems"(1)] True
    show ?thesis by (auto intro: outcome_kept)
  next
    case False
    show ?thesis
    proof (cases "typeOf_st h input = ''object''")
      case True
      from "2.IH"(2) [OF False True n l c(2)] append_kept [OF "2.prems"(1)] True False
      show ?thesis by (auto intro: outcome_kept)
    next
      case no: False
      have "fresh L input"
        using False no "2.prems"(1) by (cases input) (auto split: if_splits)
      with False no "2.prems"(2) show ?thesis by (simp add: outcome_return)
    qed
  qed
next
  case (3 n input out h)
  then show ?case by (simp add: outcome_return)
next
  case (4 n input out index rest h)
  obtain r h1 where r: "clone_st n (getprop_st h input index) h = (r, h1)"
    by (cases "clone_st n (getprop_st h input index) h")
  from "4.IH"(1) [OF "4.prems"(2,3)] r have o1: "outcome L h (r, h1)" by simp
  show ?case
  proof (cases r)
    case (Inl e)
    with o1 r show ?thesis by simp
  next
    case (Inr v)
    from o1 Inr have k1: "kept L h h1" "closed L h1" "fresh L v"
      by (simp_all add: outcome_def)
    let ?h2 = "setprop_st h1 out index v"
    have k2: "kept L h1 ?h2" using "4.prems"(1) by (rule setprop_kept)
    have c2: "closed L ?h2" using k1(2,3) by (rule setprop_closed)
    have l2: "L \<le> length ?h2" using "4.prems"(2) kept_length [OF k1(1)] by simp
    from "4.IH"(2) [OF r [symmetric] Inr "4.prems"(1) l2 c2]
    have "outcome L ?h2 (clone_into n input out rest ?h2)" .
    with k1(1) k2 have "outcome L h (clone_into n input out rest ?h2)"
      by (blast intro: outcome_kept)
    with r Inr show ?thesis by simp
  qed
qed


lemma merge_recursive_outcome:
  "fresh L base \<Longrightarrow> fresh L ext \<Longrightarrow> closed L h \<Longrightarrow>
     outcome L h (merge_recursive_st n base ext h)"
  "fresh L base \<Longrightarrow> fresh L ext \<Longrightarrow> closed L h \<Longrightarrow>
     outcome L h (merge_into n base ext keys h)"
proof (induction n base ext h and n base ext keys h rule: merge_recursive_st_merge_into.induct)
  case (1 base ext h)
  then show ?case by (simp add: outcome_range)
next
  case (2 n base ext h)
  show ?case
  proof (cases "typeOf_st h base \<noteq> ''object''")
    case True
    with "2.prems" show ?thesis by (simp add: outcome_return)
  next
    case False
    from "2.IH" [OF False "2.prems"] False show ?thesis by simp
  qed
next
  case (3 n base ext h)
  then show ?case by (simp add: outcome_return)
next
  case (4 n base ext key rest h)
  let ?b = "getprop_st h base key" and ?e = "getprop_st h ext key"
  have fb: "fresh L ?b" using "4.prems"(3,1) by (rule getprop_fresh)
  have fe: "fresh L ?e" using "4.prems"(3,2) by (rule getprop_fresh)
  show ?case
  proof (cases "typeOf_st h ?b = ''object'' \<and> typeOf_st h ?e = ''object''")
    case True
    obtain r h1 where r: "merge_recursive_st n ?b ?e h = (r, h1)"
      by (cases "merge_recursive_st n ?b ?e h")
    from "4.IH"(1) [OF True fb fe "4.prems"(3)] r have o1: "outcome L h (r, h1)" by simp
    show ?thesis
    proof (cases r)
      case (Inl e)
      with o1 r True show ?thesis by simp
    next
      case (Inr v)
      from o1 Inr have k1: "kept L h h1" "closed L h1" "fresh L v"
        by (simp_all add: outcome_def)
      let ?h2 = "setprop_st h1 base key v"
      have k2: "kept L h1 ?h2" using "4.prems"(1) by (rule setprop_kept)
      have c2: "closed L ?h2" using k1(2,3) by (rule setprop_closed)
      from "4.IH"(2) [OF True r [symmetric] Inr "4.prems"(1,2) c2]
      have "outcome L ?h2 (merge_into n base ext rest ?h2)" .
      with k1(1) k2 have "outcome L h (merge_into n base ext rest ?h2)"
        by (blast intro: outcome_kept)
      with r Inr True show ?thesis by simp
    qed
  next
    case False
    let ?h2 = "setprop_st h base key ?e"
    have k2: "kept L h ?h2" using "4.prems"(1) by (rule setprop_kept)
    have c2: "closed L ?h2" using "4.prems"(3) fe by (rule setprop_closed)
    from "4.IH"(3) [OF False "4.prems"(1,2) c2]
    have "outcome L ?h2 (merge_into n base ext rest ?h2)" .
    with k2 have "outcome L h (merge_into n base ext rest ?h2)" by (rule outcome_kept)
    moreover have "merge_into n base ext (key # rest) h = merge_into n base ext rest ?h2"
      using False by auto
    ultimately show ?thesis by simp
  qed
qed

lemma loop_outcome_kept:
  "kept L h h1 \<Longrightarrow> loop_outcome L h1 result res \<Longrightarrow> loop_outcome L h result res"
  by (auto simp add: loop_outcome_def intro: kept_trans)

lemma outcome_error: "outcome L h (Inl e, h1) \<Longrightarrow> loop_outcome L h result (Inl e, h1)"
  by (simp add: outcome_def loop_outcome_def)

lemma merge_keys_outcome:
  "fresh L result \<Longrightarrow> L \<le> length h \<Longrightarrow> closed L h \<Longrightarrow>
     loop_outcome L h result (merge_keys n True recursiveMode result item keys h)"
proof (induction keys arbitrary: h)
  case Nil
  then show ?case by (simp add: loop_outcome_def)
next
  case (Cons key rest)
  obtain s h1 where s: "clone_st n (getprop_st h item key) h = (s, h1)"
    by (cases "clone_st n (getprop_st h item key) h")
  from clone_outcome(1) [OF Cons.prems(2,3), of n "getprop_st h item key"] s
  have o1: "outcome L h (s, h1)" by simp
  show ?case
  proof (cases s)
    case (Inl e)
    with o1 s show ?thesis by (simp add: outcome_error)
  next
    case (Inr sitem)
    from o1 Inr have k1: "kept L h h1" "closed L h1" "fresh L sitem"
      by (simp_all add: outcome_def)
    let ?m = "if recursiveMode then merge_recursive_st n (getprop_st h1 result key) sitem h1
              else (Inr sitem, h1)"
    obtain v' h2 where m: "?m = (v', h2)" by (cases ?m)
    have fr: "fresh L (getprop_st h1 result key)"
      using k1(2) Cons.prems(1) by (rule getprop_fresh)
    have o2: "outcome L h1 (v', h2)"
    proof (cases recursiveMode)
      case True
      with m merge_recursive_outcome(1) [OF fr k1(3) k1(2), of n] show ?thesis by simp
    next
      case False
      with m k1 show ?thesis by (auto simp add: outcome_return)
    qed
    show ?thesis
    proof (cases v')
      case (Inl e)
      from o2 Inl have "loop_outcome L h1 result (Inl e, h2)" by (simp add: outcome_error)
      with k1(1) have "loop_outcome L h result (Inl e, h2)" by (rule loop_outcome_kept)
      with s Inr m Inl show ?thesis by simp
    next
      case inner: (Inr v)
      from o2 inner have k2: "kept L h1 h2" "closed L h2" "fresh L v"
        by (simp_all add: outcome_def)
      let ?h3 = "setprop_st h2 result key v"
      have k3: "kept L h2 ?h3" using Cons.prems(1) by (rule setprop_kept)
      have c3: "closed L ?h3" using k2(2,3) by (rule setprop_closed)
      have l3: "L \<le> length ?h3"
        using Cons.prems(2) kept_length [OF k1(1)] kept_length [OF k2(1)] by simp
      from Cons.IH [OF Cons.prems(1) l3 c3]
      have "loop_outcome L ?h3 result (merge_keys n True recursiveMode result item rest ?h3)" .
      with k1(1) k2(1) k3
      have "loop_outcome L h result (merge_keys n True recursiveMode result item rest ?h3)"
        by (blast intro: loop_outcome_kept)
      with s Inr m inner show ?thesis by simp
    qed
  qed
qed

lemma merge_items_outcome:
  "fresh L result \<Longrightarrow> L \<le> length h \<Longrightarrow> closed L h \<Longrightarrow>
     loop_outcome L h result (merge_items n True recursiveMode result items h)"
proof (induction items arbitrary: h)
  case Nil
  then show ?case by (simp add: loop_outcome_def)
next
  case (Cons item rest)
  show ?case
  proof (cases "typeOf_st h item \<noteq> ''object''")
    case True
    with Cons.IH [OF Cons.prems] show ?thesis by simp
  next
    case False
    let ?k = "merge_keys n True recursiveMode result item (map fst (props_st h item)) h"
    obtain r h1 where r: "?k = (r, h1)" by (cases ?k)
    from merge_keys_outcome [OF Cons.prems, of n recursiveMode item "map fst (props_st h item)"] r
    have o1: "loop_outcome L h result (r, h1)" by simp
    show ?thesis
    proof (cases r)
      case (Inl e)
      with o1 r False show ?thesis by simp
    next
      case (Inr v)
      from o1 have k1: "kept L h h1" "closed L h1" by (simp_all add: loop_outcome_def)
      have l1: "L \<le> length h1" using Cons.prems(2) kept_length [OF k1(1)] by simp
      from Cons.IH [OF Cons.prems(1) l1 k1(2)] k1(1)
      have "loop_outcome L h result (merge_items n True recursiveMode result rest h1)"
        by (blast intro: loop_outcome_kept)
      with r Inr False show ?thesis by simp
    qed
  qed
qed


lemma merge_st_clone_mode:
  assumes "merge_st n True recursiveMode argv h = (r, h')"
  shows "take (length h) h' = h
       \<and> (\<forall>v. r = Inr v \<longrightarrow> v = HRef (length h) \<and> length h < length h' \<and> is_plain (h' ! length h))
       \<and> (\<forall>e. r = Inl e \<longrightarrow> e = RangeError)"
proof -
  let ?L = "length h" and ?h0 = "h @ [PlainObject []]"
  have c: "closed ?L ?h0"
    unfolding closed_def
  proof (intro allI impI ballI)
    fix a kv assume "?L \<le> a" "a < length ?h0" and kv: "kv \<in> set (props_of (?h0 ! a))"
    then have "a = ?L" by simp
    with kv show "fresh ?L (snd kv)" by simp
  qed
  have "loop_outcome ?L ?h0 (HRef ?L) (merge_items n True recursiveMode (HRef ?L) argv ?h0)"
    by (rule merge_items_outcome) (simp_all add: c)
  with assms have o: "loop_outcome ?L ?h0 (HRef ?L) (r, h')"
    by (simp add: merge_st_def)
  then have k: "kept ?L ?h0 h'" by (simp add: loop_outcome_def)
  then have "take ?L h' = h" "length ?h0 \<le> length h'" "is_plain (h' ! ?L) = is_plain (?h0 ! ?L)"
    by (simp_all add: kept_def)
  with o show ?thesis by (simp add: loop_outcome_def)
qed

text \<open>
  The rest of the section shows that the call returns when its arguments are finite
  trees. First the arithmetic of blocks, then \<open>clone\<close>, which returns a block, then
  \<open>merge_recursive\<close> on two separate blocks, which writes into the first only, then the
  two passes of \<open>merge\<close> over the structural field and over the object literal.
\<close>

lemma total_append [simp]: "cells_all (xs @ ys) = cells_all xs + cells_all ys"
  by (induction xs) auto

lemma vals_append: "vals a (xs @ ys) = vals a xs @ vals (a + cells_all xs) ys"
  by (induction xs arbitrary: a) (auto simp: add.assoc)

lemma map_fst_vals [simp]: "map fst (vals a kts) = map fst kts"
  by (induction kts arbitrary: a) auto

lemma blks_append: "blks h a (xs @ ys) = (blks h a xs \<and> blks h (a + cells_all xs) ys)"
  by (induction xs arbitrary: a) (auto simp: add.assoc)

lemma total_take_le: "cells_all (take j kts) \<le> cells_all kts"
  by (induction kts arbitrary: j) (auto simp: take_Cons split: nat.splits)

lemma total_take_Suc:
  "j < length kts \<Longrightarrow> cells_all (take (Suc j) kts) = cells_all (take j kts) + cells (snd (kts ! j))"
  by (simp add: take_Suc_conv_app_nth)

lemma total_take_mono: "i \<le> j \<Longrightarrow> cells_all (take i kts) \<le> cells_all (take j kts)"
  using total_take_le [of i "take j kts"] by (simp add: min_absorb1)

lemma block_order:
  "i < j \<Longrightarrow> j \<le> length kts \<Longrightarrow> cells_all (take i kts) + cells (snd (kts ! i)) \<le> cells_all (take j kts)"
  using total_take_mono [of "Suc i" j kts] total_take_Suc [of i kts] by simp

lemma block_within: "j < length kts \<Longrightarrow> cells_all (take j kts) + cells (snd (kts ! j)) \<le> cells_all kts"
  using block_order [of j "length kts" kts] by simp

lemma blks_nth:
  "blks h a kts \<Longrightarrow> j < length kts \<Longrightarrow> blk h (a + cells_all (take j kts)) (snd (kts ! j))"
proof (induction kts arbitrary: a j)
  case Nil
  then show ?case by simp
next
  case (Cons kt rest)
  show ?case
  proof (cases j)
    case 0
    with Cons.prems show ?thesis by simp
  next
    case (Suc j')
    with Cons.prems have "blks h (a + cells (snd kt)) rest" "j' < length rest" by simp_all
    from Cons.IH [OF this] Suc show ?thesis by (simp add: add.assoc)
  qed
qed

lemma root_Leaf [simp]: "root a (Leaf u) = u"
  by (simp add: root_def)

lemma root_Node [simp]: "root a (Node p kts) = HRef a"
  by (simp add: root_def)

lemma map_of_vals_Some:
  "map_of (vals a kts) k = Some v \<Longrightarrow>
     \<exists>j < length kts. fst (kts ! j) = k \<and> v = root (a + cells_all (take j kts)) (snd (kts ! j))"
proof (induction kts arbitrary: a)
  case Nil
  then show ?case by simp
next
  case (Cons kt rest)
  show ?case
  proof (cases "fst kt = k")
    case True
    with Cons.prems have "v = root a (snd kt)" by simp
    with True show ?thesis by (intro exI [of _ 0]) simp
  next
    case False
    with Cons.prems have "map_of (vals (a + cells (snd kt)) rest) k = Some v" by simp
    from Cons.IH [OF this] obtain j where
      j: "j < length rest" "fst (rest ! j) = k"
         "v = root (a + cells (snd kt) + cells_all (take j rest)) (snd (rest ! j))"
      by blast
    then show ?thesis by (intro exI [of _ "Suc j"]) (simp add: add.assoc)
  qed
qed

lemma heights_ge: "kt \<in> set kts \<Longrightarrow> height (snd kt) \<le> heights kts"
  by (induction kts) auto

lemma wf_shapes_in: "wf_shapes kts \<Longrightarrow> kt \<in> set kts \<Longrightarrow> wf_shape (snd kt)"
  by (induction kts) auto

lemma wf_root_ref: "wf_shape t \<Longrightarrow> root a t = HRef c \<Longrightarrow> c = a \<and> (\<exists>p kts. t = Node p kts)"
  by (cases t) (auto split: hval.splits)

lemma blk_frame:
  "blk h a t \<Longrightarrow> length h \<le> length h' \<Longrightarrow>
     (\<forall>i. a \<le> i \<and> i < a + cells t \<longrightarrow> h' ! i = h ! i) \<Longrightarrow> blk h' a t"
  "blks h a kts \<Longrightarrow> length h \<le> length h' \<Longrightarrow>
     (\<forall>i. a \<le> i \<and> i < a + cells_all kts \<longrightarrow> h' ! i = h ! i) \<Longrightarrow> blks h' a kts"
  by (induction h a t and h a kts rule: blk_blks.induct) auto

lemma rep_frame:
  "rep h v t \<Longrightarrow> length h \<le> length h' \<Longrightarrow> (\<forall>i < length h. h' ! i = h ! i) \<Longrightarrow> rep h' v t"
  "reps h kvs kts \<Longrightarrow> length h \<le> length h' \<Longrightarrow> (\<forall>i < length h. h' ! i = h ! i)
     \<Longrightarrow> reps h' kvs kts"
  by (induction h v t and h kvs kts rule: rep_reps.induct) (auto split: hval.splits list.splits)

lemma reps_keys: "reps h kvs kts \<Longrightarrow> map fst kvs = map fst kts"
  by (induction kts arbitrary: kvs) (auto split: list.splits)

lemma reps_lookup:
  "reps h kvs kts \<Longrightarrow> map_of kvs k = Some v \<Longrightarrow> \<exists>kt \<in> set kts. rep h v (snd kt)"
  by (induction kts arbitrary: kvs) (auto split: list.splits if_splits)

lemma setprop_at:
  "a < length h \<Longrightarrow> h ! a = mkobj p cur \<Longrightarrow>
     setprop_st h (HRef a) k v = h[a := mkobj p (AList.update k v cur)]"
  by (simp add: mkobj_def)

lemma getprop_st_ref:
  "a < length h \<Longrightarrow>
     getprop_st h (HRef a) k = (case map_of (props_of (h ! a)) k of None \<Rightarrow> HUndefined | Some x \<Rightarrow> x)"
  by (simp add: getprop_st_def)

lemma props_of_mkobj [simp]: "props_of (mkobj p kvs) = kvs"
  by (simp add: mkobj_def)

lemma is_plain_mkobj [simp]: "is_plain (mkobj p kvs) = p"
  by (simp add: mkobj_def)

lemma clone_into_loop:
  assumes IH: "\<And>v t h. height t < m \<Longrightarrow> rep h v t \<Longrightarrow> wf_shape t \<Longrightarrow>
             \<exists>h'. clone_st m v h = (Inr (root (length h) t), h')
                  \<and> length h' = length h + cells t
                  \<and> take (length h) h' = h \<and> blk h' (length h) t"
  shows "reps h0 ips2 kts2 \<Longrightarrow> wf_shapes kts2 \<Longrightarrow> heights kts2 < m
       \<Longrightarrow> distinct (map fst (kts1 @ kts2))
       \<Longrightarrow> a < length h0 \<Longrightarrow> (\<forall>kv \<in> set ips2. getprop_st h0 (HRef a) (fst kv) = snd kv)
       \<Longrightarrow> take (length h0) hc = h0 \<Longrightarrow> length hc = Suc (length h0) + cells_all kts1
       \<Longrightarrow> hc ! length h0 = mkobj p (vals (Suc (length h0)) kts1)
       \<Longrightarrow> blks hc (Suc (length h0)) kts1
       \<Longrightarrow> \<exists>h'. clone_into m (HRef a) (HRef (length h0)) (map fst ips2) hc
                    = (Inr (HRef (length h0)), h')
              \<and> length h' = Suc (length h0) + cells_all (kts1 @ kts2)
              \<and> take (length h0) h' = h0
              \<and> h' ! length h0 = mkobj p (vals (Suc (length h0)) (kts1 @ kts2))
              \<and> blks h' (Suc (length h0)) (kts1 @ kts2)"
proof (induction kts2 arbitrary: ips2 kts1 hc)
  case Nil
  then show ?case by simp
next
  case (Cons kt rest)
  let ?L = "length h0"
  from Cons.prems(1) obtain kv ips' where
    ips: "ips2 = kv # ips'" and k: "fst kv = fst kt"
    and r: "rep h0 (snd kv) (snd kt)" and rs: "reps h0 ips' rest"
    by (auto split: list.splits)
  from Cons.prems(2) have wf1: "wf_shape (snd kt)" and wfr: "wf_shapes rest" by simp_all
  from Cons.prems(3) have ht: "height (snd kt) < m" and hr: "heights rest < m" by simp_all
  have len: "?L \<le> length hc" using Cons.prems(8) by simp
  have agree: "\<forall>i < ?L. hc ! i = h0 ! i" using Cons.prems(7) by (metis nth_take)
  have gp0: "getprop_st h0 (HRef a) (fst kv) = snd kv" using Cons.prems(6) by (simp add: ips)
  have gp: "getprop_st hc (HRef a) (fst kv) = snd kv"
    using gp0 Cons.prems(5) agree len by (simp add: getprop_st_def)
  have "rep hc (snd kv) (snd kt)" using rep_frame(1) [OF r len agree] .
  from IH [OF ht this wf1] obtain h1 where
    h1: "clone_st m (snd kv) hc = (Inr (root (length hc) (snd kt)), h1)"
        "length h1 = length hc + cells (snd kt)"
        "take (length hc) h1 = hc" "blk h1 (length hc) (snd kt)"
    by blast
  define h2 where "h2 = setprop_st h1 (HRef ?L) (fst kv) (root (length hc) (snd kt))"
  have agree1: "\<forall>i < length hc. h1 ! i = hc ! i" using h1(3) by (metis nth_take)
  have Llt: "?L < length hc" using Cons.prems(8) by simp
  have cellL: "h1 ! ?L = mkobj p (vals (Suc ?L) kts1)"
    using agree1 Llt Cons.prems(9) by simp
  have fresh_k: "fst kt \<notin> fst ` set (vals (Suc ?L) kts1)"
  proof -
    have "fst ` set (vals (Suc ?L) kts1) = set (map fst kts1)"
      using map_fst_vals [of "Suc ?L" kts1] by (metis set_map)
    with Cons.prems(4) show ?thesis by auto
  qed
  have lenhc: "length hc = Suc ?L + cells_all kts1" by (rule Cons.prems(8))
  have h2eq: "h2 = h1[?L := mkobj p (vals (Suc ?L) (kts1 @ [kt]))]"
    unfolding h2_def using Llt h1(2)
    by (subst setprop_at [OF _ cellL]) (simp_all add: update_fresh [OF fresh_k] vals_append lenhc k)
  have step: "clone_into m (HRef a) (HRef ?L) (map fst ips2) hc
                = clone_into m (HRef a) (HRef ?L) (map fst ips') h2"
    by (simp add: ips gp h1(1) h2_def)
  have i1: "take ?L h2 = h0"
  proof -
    have "take ?L h2 = take ?L h1" by (simp add: h2eq)
    also have "\<dots> = take ?L (take (length hc) h1)" using len by (simp add: min_absorb1)
    also have "\<dots> = h0" by (simp add: h1(3) Cons.prems(7))
    finally show ?thesis .
  qed
  have i2: "length h2 = Suc ?L + cells_all (kts1 @ [kt])"
    by (simp add: h2eq h1(2) lenhc)
  have i3: "h2 ! ?L = mkobj p (vals (Suc ?L) (kts1 @ [kt]))"
    using Llt h1(2) by (simp add: h2eq)
  have i4: "blks h2 (Suc ?L) (kts1 @ [kt])"
  proof -
    have a1: "blks h2 (Suc ?L) kts1"
    proof (rule blk_frame(2) [OF Cons.prems(10)])
      show "length hc \<le> length h2" by (simp add: h2eq h1(2))
      show "\<forall>i. Suc ?L \<le> i \<and> i < Suc ?L + cells_all kts1 \<longrightarrow> h2 ! i = hc ! i"
        using agree1 lenhc by (simp add: h2eq)
    qed
    have a2: "blk h2 (length hc) (snd kt)"
    proof (rule blk_frame(1) [OF h1(4)])
      show "length h1 \<le> length h2" by (simp add: h2eq)
      show "\<forall>i. length hc \<le> i \<and> i < length hc + cells (snd kt) \<longrightarrow> h2 ! i = h1 ! i"
        using Llt by (simp add: h2eq)
    qed
    show ?thesis using a1 a2 by (simp add: blks_append lenhc)
  qed
  have d: "distinct (map fst ((kts1 @ [kt]) @ rest))" using Cons.prems(4) by simp
  have g: "\<forall>kv \<in> set ips'. getprop_st h0 (HRef a) (fst kv) = snd kv"
    using Cons.prems(6) by (simp add: ips)
  from Cons.IH [OF rs wfr hr d Cons.prems(5) g i1 i2 i3 i4] step
  show ?case by simp
qed

lemma typeOf_st_leaf:
  "wf_shape (Leaf u) \<Longrightarrow> typeOf_st h u \<noteq> ''object'' \<and> typeOf_st h u \<noteq> ''array''"
  by (cases u) auto

lemma map_of_distinct_in:
  "distinct (map fst kvs) \<Longrightarrow> kv \<in> set kvs \<Longrightarrow> map_of kvs (fst kv) = Some (snd kv)"
  by (cases kv) simp

lemma clone_returns:
  "height t < n \<Longrightarrow> rep h v t \<Longrightarrow> wf_shape t \<Longrightarrow>
     \<exists>h'. clone_st n v h = (Inr (root (length h) t), h')
          \<and> length h' = length h + cells t
          \<and> take (length h) h' = h \<and> blk h' (length h) t"
proof (induction n arbitrary: t v h)
  case 0
  then show ?case by simp
next
  case (Suc m)
  show ?case
  proof (cases t)
    case (Leaf u)
    with Suc.prems have "v = u" by simp
    with typeOf_st_leaf [of u h] Suc.prems(3) Leaf show ?thesis by simp
  next
    case (Node p kts)
    with Suc.prems(2) obtain a where
      a: "v = HRef a" "a < length h" "is_plain (h ! a) = p" "reps h (props_of (h ! a)) kts"
      by (auto split: hval.splits)
    let ?hc = "h @ [mkobj p []]"
    have keys: "map fst (props_of (h ! a)) = map fst kts" by (rule reps_keys [OF a(4)])
    have dist: "distinct (map fst (props_of (h ! a)))" using Suc.prems(3) Node keys by simp
    have start: "clone_st (Suc m) v h
          = clone_into m (HRef a) (HRef (length h)) (map fst (props_of (h ! a))) ?hc"
      using a by (simp add: mkobj_def)
    have g: "\<forall>kv \<in> set (props_of (h ! a)). getprop_st h (HRef a) (fst kv) = snd kv"
      using a(2) map_of_distinct_in [OF dist] by (simp add: getprop_st_def)
    have "\<exists>h'. clone_into m (HRef a) (HRef (length h)) (map fst (props_of (h ! a))) ?hc
                    = (Inr (HRef (length h)), h')
              \<and> length h' = Suc (length h) + cells_all ([] @ kts)
              \<and> take (length h) h' = h
              \<and> h' ! length h = mkobj p (vals (Suc (length h)) ([] @ kts))
              \<and> blks h' (Suc (length h)) ([] @ kts)"
    proof (rule clone_into_loop [where p = p and ?kts1.0 = "[]"])
      show "\<And>v t h. height t < m \<Longrightarrow> rep h v t \<Longrightarrow> wf_shape t \<Longrightarrow>
             \<exists>h'. clone_st m v h = (Inr (root (length h) t), h')
                  \<and> length h' = length h + cells t
                  \<and> take (length h) h' = h \<and> blk h' (length h) t"
        by (rule Suc.IH)
      show "reps h (props_of (h ! a)) kts" by (rule a(4))
      show "wf_shapes kts" using Suc.prems(3) Node by simp
      show "heights kts < m" using Suc.prems(1) Node by simp
      show "distinct (map fst ([] @ kts))" using Suc.prems(3) Node by simp
      show "a < length h" by (rule a(2))
      show "\<forall>kv \<in> set (props_of (h ! a)). getprop_st h (HRef a) (fst kv) = snd kv" by (rule g)
    qed simp_all
    then obtain h' where
      h': "clone_into m (HRef a) (HRef (length h)) (map fst (props_of (h ! a))) ?hc
             = (Inr (HRef (length h)), h')"
          "length h' = Suc (length h) + cells_all kts" "take (length h) h' = h"
          "h' ! length h = mkobj p (vals (Suc (length h)) kts)"
          "blks h' (Suc (length h)) kts"
      by auto
    show ?thesis using start h' Node by simp
  qed
qed

lemma fst_set_vals [simp]: "fst ` set (vals a kts) = fst ` set kts"
  using map_fst_vals [of a kts] by (metis set_map)

lemma map_of_vals_mid:
  "distinct (map fst (xs @ kt # ys)) \<Longrightarrow>
     map_of (vals a (xs @ kt # ys)) (fst kt) = Some (root (a + cells_all xs) (snd kt))"
proof -
  assume d: "distinct (map fst (xs @ kt # ys))"
  then have "fst kt \<notin> fst ` set (vals a xs)" by auto
  then have "map_of (vals a xs) (fst kt) = None" by (simp add: map_of_eq_None_iff)
  then show ?thesis by (simp add: vals_append map_add_def)
qed

lemma setprop_nth_other: "i \<noteq> b \<Longrightarrow> setprop_st h (HRef b) k v ! i = h ! i"
  by simp

lemma base_inv_of_blk: "blk h b (Node True bk) \<Longrightarrow> base_inv h b bk K"
  unfolding base_inv_def using blks_nth [of h "Suc b" bk] by (auto simp: mkobj_def)

lemma base_inv_lookup:
  assumes "base_inv h b bk K" and "k \<in> K" and "wf_shapes bk"
  shows "\<exists>c t. getprop_st h (HRef b) k = root c t \<and> blk h c t \<and> wf_shape t \<and> b < c
           \<and> c + cells t \<le> Suc b + cells_all bk
           \<and> (\<forall>j < length bk. fst (bk ! j) \<noteq> k \<longrightarrow>
                (\<forall>i. Suc b + cells_all (take j bk) \<le> i
                       \<and> i < Suc b + cells_all (take j bk) + cells (snd (bk ! j))
                     \<longrightarrow> \<not> (c \<le> i \<and> i < c + cells t)))"
proof -
  from assms(1) obtain cur where
    cur: "b < length h" "h ! b = PlainObject cur"
         "\<forall>k \<in> K. map_of cur k = map_of (vals (Suc b) bk) k"
    and blocks: "\<forall>j < length bk. fst (bk ! j) \<in> K \<longrightarrow>
                   blk h (Suc b + cells_all (take j bk)) (snd (bk ! j))"
    unfolding base_inv_def by blast
  have gp: "getprop_st h (HRef b) k
              = (case map_of (vals (Suc b) bk) k of None \<Rightarrow> HUndefined | Some x \<Rightarrow> x)"
    using cur assms(2) by (simp add: getprop_st_def)
  show ?thesis
  proof (cases "map_of (vals (Suc b) bk) k")
    case None
    show ?thesis
      by (rule exI [of _ "Suc b"], rule exI [of _ "Leaf HUndefined"]) (simp add: gp None)
  next
    case (Some v)
    from map_of_vals_Some [OF Some] obtain j where
      j: "j < length bk" "fst (bk ! j) = k"
         "v = root (Suc b + cells_all (take j bk)) (snd (bk ! j))"
      by blast
    let ?c = "Suc b + cells_all (take j bk)" and ?t = "snd (bk ! j)"
    have c1: "blk h ?c ?t" using blocks j assms(2) by simp
    have c2: "wf_shape ?t" using wf_shapes_in [OF assms(3), of "bk ! j"] j(1) by simp
    have c3: "?c + cells ?t \<le> Suc b + cells_all bk" using block_within [OF j(1)] by simp
    have c4: "\<forall>j' < length bk. fst (bk ! j') \<noteq> k \<longrightarrow>
                (\<forall>i. Suc b + cells_all (take j' bk) \<le> i
                       \<and> i < Suc b + cells_all (take j' bk) + cells (snd (bk ! j'))
                     \<longrightarrow> \<not> (?c \<le> i \<and> i < ?c + cells ?t))"
    proof (intro allI impI)
      fix j' i
      assume a: "j' < length bk" "fst (bk ! j') \<noteq> k"
        "Suc b + cells_all (take j' bk) \<le> i
           \<and> i < Suc b + cells_all (take j' bk) + cells (snd (bk ! j'))"
      then have "j' \<noteq> j" using j(2) by auto
      then consider "j' < j" | "j < j'" by linarith
      then show "\<not> (?c \<le> i \<and> i < ?c + cells ?t)"
      proof cases
        case 1
        from block_order [OF 1] j(1)
        have "cells_all (take j' bk) + cells (snd (bk ! j')) \<le> cells_all (take j bk)" by simp
        with a(3) show ?thesis by linarith
      next
        case 2
        from block_order [OF 2] a(1)
        have "cells_all (take j bk) + cells (snd (bk ! j)) \<le> cells_all (take j' bk)" by simp
        with a(3) show ?thesis by linarith
      qed
    qed
    show ?thesis
      apply (rule exI [of _ ?c], rule exI [of _ ?t])
      using c1 c2 c3 c4 by (simp add: gp Some j(3))
  qed
qed

lemma base_inv_step:
  assumes inv: "base_inv h b bk K" and sub: "K' \<subseteq> K" and notin: "k \<notin> K'"
    and len: "length h \<le> length h'"
    and bc: "b < c"
    and same: "\<forall>i. i < c \<or> c + cells t \<le> i \<longrightarrow> h' ! i = h ! i"
    and disj: "\<forall>j < length bk. fst (bk ! j) \<noteq> k \<longrightarrow>
                (\<forall>i. Suc b + cells_all (take j bk) \<le> i
                       \<and> i < Suc b + cells_all (take j bk) + cells (snd (bk ! j))
                     \<longrightarrow> \<not> (c \<le> i \<and> i < c + cells t))"
  shows "base_inv (setprop_st h' (HRef b) k r) b bk K'"
proof -
  from inv obtain cur where
    cur: "b < length h" "h ! b = PlainObject cur"
         "\<forall>k \<in> K. map_of cur k = map_of (vals (Suc b) bk) k"
    and blocks: "\<forall>j < length bk. fst (bk ! j) \<in> K \<longrightarrow>
                   blk h (Suc b + cells_all (take j bk)) (snd (bk ! j))"
    unfolding base_inv_def by blast
  let ?h2 = "setprop_st h' (HRef b) k r"
  have b': "b < length h'" using cur(1) len by simp
  have cellb: "h' ! b = PlainObject cur" using same bc cur(2) by simp
  have "?h2 = h'[b := with_props (h' ! b) (AList.update k r (props_of (h' ! b)))]"
    using b' by simp
  then have h2: "?h2 = h'[b := PlainObject (AList.update k r cur)]"
    by (simp only: cellb with_props.simps props_of.simps)
  have p1: "b < length ?h2" using b' by simp
  have p2: "?h2 ! b = PlainObject (AList.update k r cur)" unfolding h2 using b' by simp
  have p3: "\<forall>k' \<in> K'. map_of (AList.update k r cur) k' = map_of (vals (Suc b) bk) k'"
    using cur(3) sub notin by (auto simp: AList.update_conv')
  have p4: "\<forall>j < length bk. fst (bk ! j) \<in> K' \<longrightarrow>
              blk ?h2 (Suc b + cells_all (take j bk)) (snd (bk ! j))"
  proof (intro allI impI)
    fix j assume j: "j < length bk" "fst (bk ! j) \<in> K'"
    then have nk: "fst (bk ! j) \<noteq> k" using notin by auto
    from j sub blocks have bl: "blk h (Suc b + cells_all (take j bk)) (snd (bk ! j))" by auto
    show "blk ?h2 (Suc b + cells_all (take j bk)) (snd (bk ! j))"
    proof (rule blk_frame(1) [OF bl])
      show "length h \<le> length ?h2" using len by simp
      show "\<forall>i. Suc b + cells_all (take j bk) \<le> i
                 \<and> i < Suc b + cells_all (take j bk) + cells (snd (bk ! j))
               \<longrightarrow> ?h2 ! i = h ! i"
      proof (intro allI impI)
        fix i
        assume i: "Suc b + cells_all (take j bk) \<le> i
                 \<and> i < Suc b + cells_all (take j bk) + cells (snd (bk ! j))"
        with disj j(1) nk have "\<not> (c \<le> i \<and> i < c + cells t)" by blast
        then have "h' ! i = h ! i" using same by auto
        moreover have "i \<noteq> b" using i by simp
        ultimately show "?h2 ! i = h ! i" by (simp add: h2)
      qed
    qed
  qed
  show ?thesis unfolding base_inv_def using p1 p2 p3 p4 by blast
qed

lemma base_inv_grow:
  assumes inv: "base_inv h b bk K" and bound: "Suc b + cells_all bk \<le> length h"
    and len: "length h \<le> length h'" and same: "\<forall>i < length h. h' ! i = h ! i"
  shows "base_inv h' b bk K"
proof -
  from inv obtain cur where
    cur: "b < length h" "h ! b = PlainObject cur"
         "\<forall>k \<in> K. map_of cur k = map_of (vals (Suc b) bk) k"
    and blocks: "\<forall>j < length bk. fst (bk ! j) \<in> K \<longrightarrow>
                   blk h (Suc b + cells_all (take j bk)) (snd (bk ! j))"
    unfolding base_inv_def by blast
  have p4: "\<forall>j < length bk. fst (bk ! j) \<in> K \<longrightarrow>
              blk h' (Suc b + cells_all (take j bk)) (snd (bk ! j))"
  proof (intro allI impI)
    fix j assume j: "j < length bk" "fst (bk ! j) \<in> K"
    with blocks have bl: "blk h (Suc b + cells_all (take j bk)) (snd (bk ! j))" by auto
    show "blk h' (Suc b + cells_all (take j bk)) (snd (bk ! j))"
    proof (rule blk_frame(1) [OF bl len])
      show "\<forall>i. Suc b + cells_all (take j bk) \<le> i
                 \<and> i < Suc b + cells_all (take j bk) + cells (snd (bk ! j))
               \<longrightarrow> h' ! i = h ! i"
        using block_within [OF j(1)] bound same by auto
    qed
  qed
  have "b < length h'" using cur(1) len by simp
  moreover have "h' ! b = PlainObject cur" using cur(1,2) same by simp
  ultimately show ?thesis unfolding base_inv_def using cur(3) p4 by blast
qed

lemma getprop_prim_not_object:
  "(\<forall>a. ext \<noteq> HRef a) \<Longrightarrow> typeOf_st h (getprop_st h' ext k) \<noteq> ''object''"
  by (cases ext) (auto simp: getprop_st_def split: option.splits dest!: map_of_SomeD)

lemma merge_into_prim:
  "(\<forall>a. ext \<noteq> HRef a) \<Longrightarrow>
     \<exists>h'. merge_into m (HRef b) ext keys h = (Inr (HRef b), h') \<and> length h' = length h
          \<and> (\<forall>i. i \<noteq> b \<longrightarrow> h' ! i = h ! i)"
proof (induction keys arbitrary: h)
  case Nil
  then show ?case by simp
next
  case (Cons key rest)
  let ?h1 = "setprop_st h (HRef b) key (getprop_st h ext key)"
  from Cons.IH [OF Cons.prems, of ?h1] obtain h' where
    h': "merge_into m (HRef b) ext rest ?h1 = (Inr (HRef b), h')" "length h' = length ?h1"
        "\<forall>i. i \<noteq> b \<longrightarrow> h' ! i = ?h1 ! i"
    by blast
  have "merge_into m (HRef b) ext (key # rest) h = merge_into m (HRef b) ext rest ?h1"
    using getprop_prim_not_object [OF Cons.prems, of h h key] by simp
  with h' show ?case by (simp del: setprop_st.simps add: setprop_nth_other)
qed

lemma merge_into_loop:
  assumes IH: "\<And>tb te b e h. blk h b tb \<Longrightarrow> blk h e te \<Longrightarrow> wf_shape tb \<Longrightarrow> wf_shape te
       \<Longrightarrow> b + cells tb \<le> e \<Longrightarrow> height te < m \<Longrightarrow>
       \<exists>r h'. merge_recursive_st m (root b tb) (root e te) h = (Inr r, h')
             \<and> length h' = length h \<and> (\<forall>i. i < b \<or> b + cells tb \<le> i \<longrightarrow> h' ! i = h ! i)"
    and wfb: "wf_shapes bk"
    and sep: "Suc b + cells_all bk \<le> e"
  shows "wf_shapes ek2 \<Longrightarrow> heights ek2 < m \<Longrightarrow> distinct (map fst (ek1 @ ek2))
       \<Longrightarrow> base_inv hc b bk (fst ` set ek2)
       \<Longrightarrow> e < length hc \<Longrightarrow> hc ! e = mkobj pe (vals (Suc e) (ek1 @ ek2))
       \<Longrightarrow> blks hc (Suc e + cells_all ek1) ek2
       \<Longrightarrow> \<exists>h'. merge_into m (HRef b) (HRef e) (map fst ek2) hc = (Inr (HRef b), h')
              \<and> length h' = length hc
              \<and> (\<forall>i. i < b \<or> Suc b + cells_all bk \<le> i \<longrightarrow> h' ! i = hc ! i)"
proof (induction ek2 arbitrary: ek1 hc)
  case Nil
  then show ?case by simp
next
  case (Cons kt rest)
  let ?k = "fst kt" and ?e' = "Suc e + cells_all ek1"
  from Cons.prems(1) have wf1: "wf_shape (snd kt)" and wfr: "wf_shapes rest" by simp_all
  from Cons.prems(2) have ht: "height (snd kt) < m" and hr: "heights rest < m" by simp_all
  have ev: "getprop_st hc (HRef e) ?k = root ?e' (snd kt)"
    using Cons.prems(5,6) map_of_vals_mid [OF Cons.prems(3), of "Suc e"]
    by (simp add: getprop_st_def)
  have ble: "blk hc ?e' (snd kt)" and blr: "blks hc (?e' + cells (snd kt)) rest"
    using Cons.prems(7) by simp_all
  have kin: "?k \<in> fst ` set (kt # rest)" by simp
  from base_inv_lookup [OF Cons.prems(4) kin wfb] obtain c t where
    ct: "getprop_st hc (HRef b) ?k = root c t" "blk hc c t" "wf_shape t" "b < c"
        "c + cells t \<le> Suc b + cells_all bk"
        "\<forall>j < length bk. fst (bk ! j) \<noteq> ?k \<longrightarrow>
                (\<forall>i. Suc b + cells_all (take j bk) \<le> i
                       \<and> i < Suc b + cells_all (take j bk) + cells (snd (bk ! j))
                     \<longrightarrow> \<not> (c \<le> i \<and> i < c + cells t))"
    by blast
  have knot: "?k \<notin> fst ` set rest" using Cons.prems(3) by auto
  have tail: "\<exists>h'. merge_into m (HRef b) (HRef e) (map fst rest) (setprop_st h1 (HRef b) ?k r)
                     = (Inr (HRef b), h')
              \<and> length h' = length hc
              \<and> (\<forall>i. i < b \<or> Suc b + cells_all bk \<le> i \<longrightarrow> h' ! i = hc ! i)"
    if l1: "length h1 = length hc"
      and s1: "\<forall>i. i < c \<or> c + cells t \<le> i \<longrightarrow> h1 ! i = hc ! i" for h1 r
  proof -
    let ?h2 = "setprop_st h1 (HRef b) ?k r"
    have F: "\<forall>i. i < b \<or> Suc b + cells_all bk \<le> i \<longrightarrow> ?h2 ! i = hc ! i"
    proof (intro allI impI)
      fix i assume i: "i < b \<or> Suc b + cells_all bk \<le> i"
      then have "i \<noteq> b" by auto
      then have "?h2 ! i = h1 ! i" by (rule setprop_nth_other)
      moreover have "i < c \<or> c + cells t \<le> i" using i ct(4,5) by linarith
      ultimately show "?h2 ! i = hc ! i" using s1 by simp
    qed
    have inv2: "base_inv ?h2 b bk (fst ` set rest)"
    proof (rule base_inv_step [OF Cons.prems(4) _ knot _ ct(4) s1 ct(6)])
      show "fst ` set rest \<subseteq> fst ` set (kt # rest)" by auto
      show "length hc \<le> length h1" using l1 by simp
    qed
    have e2: "e < length ?h2" using Cons.prems(5) l1 by simp
    have cell2: "?h2 ! e = mkobj pe (vals (Suc e) ((ek1 @ [kt]) @ rest))"
      using F sep Cons.prems(6) by simp
    have bl2: "blks ?h2 (Suc e + cells_all (ek1 @ [kt])) rest"
    proof -
      have "blks ?h2 (?e' + cells (snd kt)) rest"
      proof (rule blk_frame(2) [OF blr])
        show "length hc \<le> length ?h2" using l1 by simp
        show "\<forall>i. ?e' + cells (snd kt) \<le> i \<and> i < ?e' + cells (snd kt) + cells_all rest
                 \<longrightarrow> ?h2 ! i = hc ! i"
          using F sep by auto
      qed
      then show ?thesis by (simp add: add.assoc)
    qed
    have d2: "distinct (map fst ((ek1 @ [kt]) @ rest))" using Cons.prems(3) by simp
    from Cons.IH [OF wfr hr d2 inv2 e2 cell2 bl2] obtain h' where
      h': "merge_into m (HRef b) (HRef e) (map fst rest) ?h2 = (Inr (HRef b), h')"
          "length h' = length ?h2"
          "\<forall>i. i < b \<or> Suc b + cells_all bk \<le> i \<longrightarrow> h' ! i = ?h2 ! i"
      by blast
    show ?thesis
      apply (rule exI [of _ h'])
      using h' F l1 by (simp del: setprop_st.simps)
  qed
  show ?case
  proof (cases "typeOf_st hc (getprop_st hc (HRef b) ?k) = ''object''
                 \<and> typeOf_st hc (getprop_st hc (HRef e) ?k) = ''object''")
    case True
    have sep': "c + cells t \<le> ?e'" using ct(5) sep by simp
    from IH [OF ct(2) ble ct(3) wf1 sep' ht] obtain r h1 where
      h1: "merge_recursive_st m (root c t) (root ?e' (snd kt)) hc = (Inr r, h1)"
          "length h1 = length hc" "\<forall>i. i < c \<or> c + cells t \<le> i \<longrightarrow> h1 ! i = hc ! i"
      by blast
    have "merge_into m (HRef b) (HRef e) (map fst (kt # rest)) hc
            = merge_into m (HRef b) (HRef e) (map fst rest) (setprop_st h1 (HRef b) ?k r)"
      using True h1(1) by (simp del: setprop_st.simps add: ct(1) ev)
    with tail [OF h1(2,3), of r] show ?thesis by simp
  next
    case False
    have "merge_into m (HRef b) (HRef e) (map fst (kt # rest)) hc
            = merge_into m (HRef b) (HRef e) (map fst rest)
                (setprop_st hc (HRef b) ?k (getprop_st hc (HRef e) ?k))"
      by (simp only: list.map merge_into.simps if_not_P [OF False])
    with tail [of hc "getprop_st hc (HRef e) ?k"] show ?thesis by simp
  qed
qed

lemma merge_returns:
  "blk h b tb \<Longrightarrow> blk h e te \<Longrightarrow> wf_shape tb \<Longrightarrow> wf_shape te
       \<Longrightarrow> b + cells tb \<le> e \<Longrightarrow> height te < n \<Longrightarrow>
       \<exists>r h'. merge_recursive_st n (root b tb) (root e te) h = (Inr r, h')
             \<and> length h' = length h \<and> (\<forall>i. i < b \<or> b + cells tb \<le> i \<longrightarrow> h' ! i = h ! i)"
proof (induction n arbitrary: tb te b e h)
  case 0
  then show ?case by simp
next
  case (Suc m)
  show ?case
  proof (cases "typeOf_st h (root b tb) = ''object''")
    case False
    then show ?thesis by simp
  next
    case True
    then obtain bk where tb: "tb = Node True bk"
      using Suc.prems(1,3) by (cases tb) (auto split: hval.splits if_splits)
    have wfb: "wf_shapes bk" using Suc.prems(3) tb by simp
    show ?thesis
    proof (cases te)
      case (Leaf u)
      with Suc.prems(4) have nr: "\<forall>a. u \<noteq> HRef a" by (auto split: hval.splits)
      from merge_into_prim [OF nr, of m b "map fst (props_st h u)" h] True Leaf tb
      show ?thesis by (auto simp del: merge_into.simps)
    next
      case (Node pe ek)
      from Suc.prems(2) Node have
        e: "e < length h" "h ! e = mkobj pe (vals (Suc e) ek)" "blks h (Suc e) ek"
        by simp_all
      have "\<exists>h'. merge_into m (HRef b) (HRef e) (map fst ek) h = (Inr (HRef b), h')
              \<and> length h' = length h
              \<and> (\<forall>i. i < b \<or> Suc b + cells_all bk \<le> i \<longrightarrow> h' ! i = h ! i)"
      proof (rule merge_into_loop [where ?ek1.0 = "[]" and pe = pe])
        show "\<And>tb te b e h. blk h b tb \<Longrightarrow> blk h e te \<Longrightarrow> wf_shape tb \<Longrightarrow> wf_shape te
           \<Longrightarrow> b + cells tb \<le> e \<Longrightarrow> height te < m \<Longrightarrow>
           \<exists>r h'. merge_recursive_st m (root b tb) (root e te) h = (Inr r, h')
             \<and> length h' = length h \<and> (\<forall>i. i < b \<or> b + cells tb \<le> i \<longrightarrow> h' ! i = h ! i)"
          by (rule Suc.IH)
        show "wf_shapes bk" by (rule wfb)
        show "Suc b + cells_all bk \<le> e" using Suc.prems(5) tb by simp
        show "wf_shapes ek" using Suc.prems(4) Node by simp
        show "heights ek < m" using Suc.prems(6) Node by simp
        show "distinct (map fst ([] @ ek))" using Suc.prems(4) Node by simp
        show "base_inv h b bk (fst ` set ek)" using Suc.prems(1) tb by (simp add: base_inv_of_blk)
        show "e < length h" by (rule e(1))
        show "h ! e = mkobj pe (vals (Suc e) ([] @ ek))" using e(2) by simp
        show "blks h (Suc e + cells_all []) ek" using e(3) by simp
      qed
      moreover have "merge_recursive_st (Suc m) (root b tb) (root e te) h
                       = merge_into m (HRef b) (HRef e) (map fst ek) h"
        using True e Node tb by simp
      ultimately show ?thesis using tb by auto
    qed
  qed
qed

lemma clone_keeps:
  assumes "clone_st n v h = (r, h1)"
  shows "length h \<le> length h1 \<and> (\<forall>i < length h. h1 ! i = h ! i)"
proof -
  have "closed (length h) h" by (simp add: closed_def)
  with clone_outcome(1) [of "length h" h n v] assms have k: "kept (length h) h h1"
    by (simp add: outcome_def)
  then have "length h \<le> length h1" "take (length h) h1 = h" by (simp_all add: kept_def)
  then show ?thesis by (metis nth_take)
qed

lemma merge_keys_into_empty:
  "R < length h \<Longrightarrow> (\<forall>k \<in> set keys. map_of (props_of (h ! R)) k = None) \<Longrightarrow> distinct keys \<Longrightarrow>
     merge_keys (Suc m) True True (HRef R) item keys h = clone_into (Suc m) item (HRef R) keys h"
proof (induction keys arbitrary: h)
  case Nil
  then show ?case by simp
next
  case (Cons key rest)
  obtain r h1 where c: "clone_st (Suc m) (getprop_st h item key) h = (r, h1)"
    by (cases "clone_st (Suc m) (getprop_st h item key) h")
  from clone_keeps [OF c] have k: "length h \<le> length h1" "\<forall>i < length h. h1 ! i = h ! i"
    by simp_all
  show ?case
  proof (cases r)
    case (Inl e)
    with c show ?thesis by (simp del: clone_st.simps)
  next
    case (Inr sitem)
    have R1: "R < length h1" using Cons.prems(1) k(1) by simp
    have cell: "h1 ! R = h ! R" using Cons.prems(1) k(2) by simp
    have gp: "getprop_st h1 (HRef R) key = HUndefined"
      using R1 cell Cons.prems(2) by (simp add: getprop_st_def)
    let ?h2 = "setprop_st h1 (HRef R) key sitem"
    have h2: "?h2 = h1[R := with_props (h ! R) (AList.update key sitem (props_of (h ! R)))]"
      using R1 cell by simp
    have p1: "R < length ?h2" using R1 by simp
    have p2: "\<forall>k \<in> set rest. map_of (props_of (?h2 ! R)) k = None"
      unfolding h2 using R1 Cons.prems(2,3) by (auto simp: AList.update_conv')
    have p3: "distinct rest" using Cons.prems(3) by simp
    from Cons.IH [OF p1 p2 p3] c Inr gp show ?thesis
      by (simp del: clone_st.simps setprop_st.simps)
  qed
qed

lemma merge_keys_loop:
  assumes wfb: "wf_shapes bk"
  shows "reps h1 ips2 kts2 \<Longrightarrow> wf_shapes kts2 \<Longrightarrow> heights kts2 < Suc m
     \<Longrightarrow> distinct (map fst kts2)
     \<Longrightarrow> it < length h1 \<Longrightarrow> (\<forall>kv \<in> set ips2. getprop_st h1 (HRef it) (fst kv) = snd kv)
     \<Longrightarrow> length h1 \<le> R \<Longrightarrow> (\<forall>i < length h1. hc ! i = h1 ! i)
     \<Longrightarrow> Suc R + cells_all bk \<le> length hc
     \<Longrightarrow> base_inv hc R bk (fst ` set kts2)
     \<Longrightarrow> \<exists>h'. merge_keys (Suc m) True True (HRef R) (HRef it) (map fst ips2) hc
                  = (Inr (HRef R), h')
            \<and> length hc \<le> length h' \<and> (\<forall>i < length h1. h' ! i = h1 ! i)"
proof (induction kts2 arbitrary: ips2 hc)
  case Nil
  then show ?case by simp
next
  case (Cons kt rest)
  let ?k = "fst kt" and ?E = "length hc"
  from Cons.prems(1) obtain kv ips' where
    ips: "ips2 = kv # ips'" and k: "fst kv = fst kt"
    and r: "rep h1 (snd kv) (snd kt)" and rs: "reps h1 ips' rest"
    by (auto split: list.splits)
  from Cons.prems(2) have wf1: "wf_shape (snd kt)" and wfr: "wf_shapes rest" by simp_all
  from Cons.prems(3) have ht: "height (snd kt) < Suc m" and hr: "heights rest < Suc m"
    by simp_all
  have len: "length h1 \<le> ?E" using Cons.prems(7,9) by simp
  have gp0: "getprop_st h1 (HRef it) ?k = snd kv" using Cons.prems(6) by (simp add: ips k)
  have gp: "getprop_st hc (HRef it) ?k = snd kv"
    using gp0 Cons.prems(5,8) len by (simp add: getprop_st_def)
  have "rep hc (snd kv) (snd kt)" using rep_frame(1) [OF r len Cons.prems(8)] .
  from clone_returns [OF ht this wf1] obtain hc1 where
    c1: "clone_st (Suc m) (snd kv) hc = (Inr (root ?E (snd kt)), hc1)"
        "length hc1 = ?E + cells (snd kt)"
        "take ?E hc1 = hc" "blk hc1 ?E (snd kt)"
    by blast
  have agree1: "\<forall>i < ?E. hc1 ! i = hc ! i" using c1(3) by (metis nth_take)
  have len1: "?E \<le> length hc1" using c1(2) by simp
  have inv1: "base_inv hc1 R bk (fst ` set (kt # rest))"
    by (rule base_inv_grow [OF Cons.prems(10,9) len1 agree1])
  have kin: "?k \<in> fst ` set (kt # rest)" by simp
  from base_inv_lookup [OF inv1 kin wfb] obtain c t where
    ct: "getprop_st hc1 (HRef R) ?k = root c t" "blk hc1 c t" "wf_shape t" "R < c"
        "c + cells t \<le> Suc R + cells_all bk"
        "\<forall>j < length bk. fst (bk ! j) \<noteq> ?k \<longrightarrow>
                (\<forall>i. Suc R + cells_all (take j bk) \<le> i
                       \<and> i < Suc R + cells_all (take j bk) + cells (snd (bk ! j))
                     \<longrightarrow> \<not> (c \<le> i \<and> i < c + cells t))"
    by blast
  have sep: "c + cells t \<le> ?E" using ct(5) Cons.prems(9) by simp
  from merge_returns [OF ct(2) c1(4) ct(3) wf1 sep ht] obtain v hc2 where
    m2: "merge_recursive_st (Suc m) (root c t) (root ?E (snd kt)) hc1 = (Inr v, hc2)"
        "length hc2 = length hc1" "\<forall>i. i < c \<or> c + cells t \<le> i \<longrightarrow> hc2 ! i = hc1 ! i"
    by blast
  let ?h3 = "setprop_st hc2 (HRef R) ?k v"
  have step: "merge_keys (Suc m) True True (HRef R) (HRef it) (map fst ips2) hc
                = merge_keys (Suc m) True True (HRef R) (HRef it) (map fst ips') ?h3"
    using c1(1) m2(1)
    by (simp del: clone_st.simps merge_recursive_st.simps setprop_st.simps
          add: ips k gp ct(1))
  have knot: "?k \<notin> fst ` set rest" using Cons.prems(4) by auto
  have inv3: "base_inv ?h3 R bk (fst ` set rest)"
  proof (rule base_inv_step [OF inv1 _ knot _ ct(4) m2(3) ct(6)])
    show "fst ` set rest \<subseteq> fst ` set (kt # rest)" by auto
    show "length hc1 \<le> length hc2" using m2(2) by simp
  qed
  have pre3: "\<forall>i < length h1. ?h3 ! i = h1 ! i"
  proof (intro allI impI)
    fix i assume i: "i < length h1"
    then have "i \<noteq> R" using Cons.prems(7) by simp
    then have "?h3 ! i = hc2 ! i" by (rule setprop_nth_other)
    also have "\<dots> = hc1 ! i" using m2(3) i Cons.prems(7) ct(4) by simp
    also have "\<dots> = hc ! i" using agree1 i len by simp
    also have "\<dots> = h1 ! i" using Cons.prems(8) i by simp
    finally show "?h3 ! i = h1 ! i" .
  qed
  have len3: "Suc R + cells_all bk \<le> length ?h3" using Cons.prems(9) m2(2) c1(2) by simp
  have d: "distinct (map fst rest)" using Cons.prems(4) by simp
  have g: "\<forall>kv \<in> set ips'. getprop_st h1 (HRef it) (fst kv) = snd kv"
    using Cons.prems(6) by (simp add: ips)
  from Cons.IH [OF rs wfr hr d Cons.prems(5) g Cons.prems(7) pre3 len3 inv3] obtain h' where
    h': "merge_keys (Suc m) True True (HRef R) (HRef it) (map fst ips') ?h3 = (Inr (HRef R), h')"
        "length ?h3 \<le> length h'" "\<forall>i < length h1. h' ! i = h1 ! i"
    by blast
  have "length ?h3 = length hc2" by (rule length_setprop)
  with h'(2) m2(2) c1(2) have "length hc \<le> length h'" by simp
  with step h'(1,3) show ?case by (simp del: setprop_st.simps)
qed

lemma getprop_prim_not_ref:
  "(\<forall>a. u \<noteq> HRef a) \<Longrightarrow> getprop_st h u k \<noteq> HRef c"
  by (cases u) (auto simp: getprop_st_def split: option.splits dest!: map_of_SomeD)

lemma rep_getprop:
  assumes "rep h v t" and "wf_shape t"
  shows "\<exists>t'. rep h (getprop_st h v k) t' \<and> wf_shape t' \<and> height t' \<le> height t"
proof (cases t)
  case (Leaf u)
  with assms have v: "v = u" and nr: "\<forall>a. u \<noteq> HRef a" by (auto split: hval.splits)
  have "wf_shape (Leaf (getprop_st h v k))"
    using getprop_prim_not_ref [OF nr, of h k] v by (auto split: hval.splits)
  then show ?thesis by (intro exI [of _ "Leaf (getprop_st h v k)"]) (simp add: Leaf)
next
  case (Node p kts)
  with assms(1) obtain a where
    a: "v = HRef a" "a < length h" "reps h (props_of (h ! a)) kts"
    by (auto split: hval.splits)
  show ?thesis
  proof (cases "map_of (props_of (h ! a)) k")
    case None
    with a show ?thesis
      by (intro exI [of _ "Leaf HUndefined"]) (simp add: getprop_st_def)
  next
    case (Some x)
    from reps_lookup [OF a(3) Some] obtain kt where
      kt: "kt \<in> set kts" "rep h x (snd kt)"
      by blast
    have "wf_shape (snd kt)" using assms(2) Node wf_shapes_in [OF _ kt(1)] by simp
    moreover have "height (snd kt) \<le> height t" using heights_ge [OF kt(1)] Node by simp
    moreover have "getprop_st h v k = x" using a Some by (simp add: getprop_st_def)
    ultimately show ?thesis using kt(2) by (intro exI [of _ "snd kt"]) simp
  qed
qed

lemma mergeFieldData_st_returns:
  assumes rs: "rep h structure ts" and ws: "wf_shape ts"
    and rt: "rep h state tst" and wt: "wf_shape tst"
    and nn: "state \<noteq> HNull" "state \<noteq> HUndefined"
    and hs: "height ts < n" and hst: "height tst < n"
  shows "\<exists>h'. mergeFieldData_st n structure state h = (Inr (HRef (Suc (length h))), h')"
proof -
  from hs obtain m where n: "n = Suc m" by (cases n) simp_all
  let ?L = "length h" and ?R = "Suc (length h)"
  define d where "d = getprop_st h state ''data''"
  define ms where "ms = getprop_st h state ''messages''"
  define vd where "vd = getprop_st h state ''valid''"
  define vl where "vl = getprop_st h state ''value''"
  define lit where "lit = [(''data'', d), (''messages'', ms), (''valid'', vd), (''value'', vl)]"
  define h1 where "h1 = h @ [PlainObject lit]"
  define h2 where "h2 = h1 @ [PlainObject []]"
  have l1: "length h1 = ?R" by (simp add: h1_def)
  have l2: "length h2 = Suc ?R" by (simp add: h2_def l1)
  have pre1: "\<forall>i < ?L. h1 ! i = h ! i" by (simp add: h1_def nth_append)
  have le1: "?L \<le> length h1" by (simp add: l1)
  have start: "mergeFieldData_st n structure state h
                 = merge_items n True True (HRef ?R) [structure, HRef ?L] h2"
    using nn
    by (simp add: mergeFieldData_st_def recursive_st_def merge_st_def Let_def h2_def h1_def
          lit_def d_def ms_def vd_def vl_def)
  have pass1: "\<exists>bk h3. merge_items n True True (HRef ?R) [structure, HRef ?L] h2
                          = merge_items n True True (HRef ?R) [HRef ?L] h3
                 \<and> wf_shapes bk \<and> (\<forall>i < length h1. h3 ! i = h1 ! i)
                 \<and> Suc ?R + cells_all bk \<le> length h3 \<and> blk h3 ?R (Node True bk)"
  proof (cases "typeOf_st h2 structure = ''object''")
    case False
    have "blk h2 ?R (Node True [])" by (simp add: h2_def l1 mkobj_def nth_append)
    moreover have "\<forall>i < length h1. h2 ! i = h1 ! i" by (simp add: h2_def nth_append)
    ultimately show ?thesis
      using False l2 by (intro exI [of _ "[]"] exI [of _ h2]) simp
  next
    case True
    then obtain a where a: "structure = HRef a" by (cases "structure") auto
    from rs a obtain p sk where ts: "ts = Node p sk"
      using ws by (cases ts) (auto split: hval.splits)
    from rs a ts have a1: "a < ?L" "is_plain (h ! a) = p" "reps h (props_of (h ! a)) sk"
      by simp_all
    have cella: "h2 ! a = h ! a" "h1 ! a = h ! a" using a1(1) by (simp_all add: h2_def h1_def nth_append)
    have p: "p" using True a a1(1,2) l2 cella by (simp split: if_splits)
    let ?ips = "props_of (h ! a)"
    have keys: "map fst ?ips = map fst sk" by (rule reps_keys [OF a1(3)])
    have dist: "distinct (map fst ?ips)" using ws ts keys by simp
    have a2: "a < length h1" using a1(1) l1 by simp
    have g: "\<forall>kv \<in> set ?ips. getprop_st h1 (HRef a) (fst kv) = snd kv"
      using a2 cella(2) map_of_distinct_in [OF dist] by (simp add: getprop_st_def)
    have reps1: "reps h1 ?ips sk" by (rule rep_frame(2) [OF a1(3) le1 pre1])
    have "\<exists>h'. clone_into n (HRef a) (HRef (length h1)) (map fst ?ips) h2
                    = (Inr (HRef (length h1)), h')
              \<and> length h' = Suc (length h1) + cells_all ([] @ sk)
              \<and> take (length h1) h' = h1
              \<and> h' ! length h1 = mkobj True (vals (Suc (length h1)) ([] @ sk))
              \<and> blks h' (Suc (length h1)) ([] @ sk)"
    proof (rule clone_into_loop [where ?kts1.0 = "[]"])
      show "\<And>v t h. height t < n \<Longrightarrow> rep h v t \<Longrightarrow> wf_shape t \<Longrightarrow>
             \<exists>h'. clone_st n v h = (Inr (root (length h) t), h')
                  \<and> length h' = length h + cells t
                  \<and> take (length h) h' = h \<and> blk h' (length h) t"
        by (rule clone_returns)
      show "reps h1 ?ips sk" by (rule reps1)
      show "wf_shapes sk" using ws ts by simp
      show "heights sk < n" using hs ts by simp
      show "distinct (map fst ([] @ sk))" using ws ts by simp
      show "a < length h1" by (rule a2)
      show "\<forall>kv \<in> set ?ips. getprop_st h1 (HRef a) (fst kv) = snd kv" by (rule g)
      show "take (length h1) h2 = h1" by (simp add: h2_def)
      show "length h2 = Suc (length h1) + cells_all []" by (simp add: l1 l2)
      show "h2 ! length h1 = mkobj True (vals (Suc (length h1)) [])"
        by (simp add: h2_def mkobj_def)
      show "blks h2 (Suc (length h1)) []" by simp
    qed
    then obtain h3 where
      h3: "clone_into n (HRef a) (HRef ?R) (map fst ?ips) h2 = (Inr (HRef ?R), h3)"
          "length h3 = Suc ?R + cells_all sk" "take (length h1) h3 = h1"
          "h3 ! ?R = mkobj True (vals (Suc ?R) sk)" "blks h3 (Suc ?R) sk"
      by (auto simp: l1)
    have emp: "\<forall>k \<in> set (map fst ?ips). map_of (props_of (h2 ! ?R)) k = None"
      by (simp add: h2_def nth_append l1)
    have R2: "?R < length h2" by (simp add: l2)
    have mk: "merge_keys n True True (HRef ?R) (HRef a) (map fst ?ips) h2 = (Inr (HRef ?R), h3)"
      using merge_keys_into_empty [OF R2 emp dist, of m "HRef a"] h3(1) by (simp add: n)
    have props2: "props_st h2 (HRef a) = ?ips" using a1(1) l2 cella by simp
    have True': "typeOf_st h2 (HRef a) = ''object''" using True a by simp
    have "merge_items n True True (HRef ?R) [HRef a, HRef ?L] h2
            = merge_items n True True (HRef ?R) [HRef ?L] h3"
      by (subst merge_items.simps(2))
         (simp del: merge_items.simps merge_keys.simps typeOf_st.simps props_st.simps
            add: True' props2 mk)
    then have "merge_items n True True (HRef ?R) [structure, HRef ?L] h2
            = merge_items n True True (HRef ?R) [HRef ?L] h3"
      by (simp only: a)
    moreover have "wf_shapes sk" using ws ts by simp
    moreover have "\<forall>i < length h1. h3 ! i = h1 ! i" using h3(3) by (metis nth_take)
    moreover have "Suc ?R + cells_all sk \<le> length h3" using h3(2) by simp
    moreover have "blk h3 ?R (Node True sk)" using h3(2,4,5) by simp
    ultimately show ?thesis by blast
  qed
  then obtain bk h3 where
    h3: "merge_items n True True (HRef ?R) [structure, HRef ?L] h2
           = merge_items n True True (HRef ?R) [HRef ?L] h3"
        "wf_shapes bk" "\<forall>i < length h1. h3 ! i = h1 ! i"
        "Suc ?R + cells_all bk \<le> length h3" "blk h3 ?R (Node True bk)"
    by blast
  from rep_getprop [OF rt wt, of "''data''"] obtain td where
    td: "rep h d td" "wf_shape td" "height td \<le> height tst" by (auto simp: d_def)
  from rep_getprop [OF rt wt, of "''messages''"] obtain tm where
    tm: "rep h ms tm" "wf_shape tm" "height tm \<le> height tst" by (auto simp: ms_def)
  from rep_getprop [OF rt wt, of "''valid''"] obtain tv where
    tv: "rep h vd tv" "wf_shape tv" "height tv \<le> height tst" by (auto simp: vd_def)
  from rep_getprop [OF rt wt, of "''value''"] obtain tl where
    tl: "rep h vl tl" "wf_shape tl" "height tl \<le> height tst" by (auto simp: vl_def)
  let ?kts = "[(''data'', td), (''messages'', tm), (''valid'', tv), (''value'', tl)]"
  have L3: "?L < length h3" using h3(4) by simp
  have cellL: "h3 ! ?L = PlainObject lit" using h3(3) l1 by (simp add: h1_def)
  have "\<exists>h'. merge_keys (Suc m) True True (HRef ?R) (HRef ?L) (map fst lit) h3
                  = (Inr (HRef ?R), h')
            \<and> length h3 \<le> length h' \<and> (\<forall>i < length h1. h' ! i = h1 ! i)"
  proof (rule merge_keys_loop [OF h3(2), where ?kts2.0 = ?kts and ?h1.0 = h1])
    show "reps h1 lit ?kts"
      using rep_frame(1) [OF td(1) le1 pre1] rep_frame(1) [OF tm(1) le1 pre1]
        rep_frame(1) [OF tv(1) le1 pre1] rep_frame(1) [OF tl(1) le1 pre1]
      by (simp add: lit_def)
    show "wf_shapes ?kts" using td(2) tm(2) tv(2) tl(2) by simp
    show "heights ?kts < Suc m" using td(3) tm(3) tv(3) tl(3) hst n by simp
    show "distinct (map fst ?kts)" by simp
    show "?L < length h1" by (simp add: l1)
    show "\<forall>kv \<in> set lit. getprop_st h1 (HRef ?L) (fst kv) = snd kv"
      by (simp add: h1_def lit_def getprop_st_def)
    show "length h1 \<le> ?R" by (simp add: l1)
    show "\<forall>i < length h1. h3 ! i = h1 ! i" by (rule h3(3))
    show "Suc ?R + cells_all bk \<le> length h3" by (rule h3(4))
    show "base_inv h3 ?R bk (fst ` set ?kts)" by (rule base_inv_of_blk [OF h3(5)])
  qed
  then obtain h' where
    h': "merge_keys n True True (HRef ?R) (HRef ?L) (map fst lit) h3 = (Inr (HRef ?R), h')"
    by (auto simp: n)
  have "merge_items n True True (HRef ?R) [HRef ?L] h3 = (Inr (HRef ?R), h')"
    using L3 cellL h' by (simp del: merge_keys.simps)
  with start h3(1) show ?thesis by simp
qed

text \<open>
  C9. Whatever \<open>mergeFieldData\<close> is given, and whether it returns or raises, every object
  that existed before the call is afterwards what it was: the structural field, the
  state entry and everything they refer to are unmodified. It raises a \<open>TypeError\<close>
  exactly when \<open>state\<close> is \<open>null\<close> or \<open>undefined\<close>. What it returns is the plain object
  allocated by the call itself, right after the object literal. And it does return: when
  the structural field and the state entry are finite trees of objects with distinct
  keys, \<open>state\<close> is neither \<open>null\<close> nor \<open>undefined\<close>, and the depth of calls available
  exceeds the heights of the two trees, the call returns that fresh object.
\<close>

theorem mergeFieldData_returns_fresh_record:
  assumes "mergeFieldData_st n structure state h = (r, h')"
  shows "take (length h) h' = h
       \<and> ((r = Inl TypeError) = (state = HNull \<or> state = HUndefined))
       \<and> (\<forall>v. r = Inr v \<longrightarrow> v = HRef (Suc (length h)) \<and> typeOf_st h' v = ''object'')
       \<and> (rep h structure ts \<and> wf_shape ts \<and> rep h state tst \<and> wf_shape tst
            \<and> state \<noteq> HNull \<and> state \<noteq> HUndefined \<and> height ts < n \<and> height tst < n
          \<longrightarrow> r = Inr (HRef (Suc (length h))))"
proof -
  have a: "take (length h) h' = h
       \<and> (\<forall>v. r = Inr v \<longrightarrow> v = HRef (Suc (length h)) \<and> typeOf_st h' v = ''object'')
       \<and> ((r = Inl TypeError) = (state = HNull \<or> state = HUndefined))"
  proof (cases "state = HNull \<or> state = HUndefined")
    case True
    with assms show ?thesis by (auto simp add: mergeFieldData_st_def)
  next
    case False
    let ?literal = "PlainObject
              [(''data'', getprop_st h state ''data''),
               (''messages'', getprop_st h state ''messages''),
               (''valid'', getprop_st h state ''valid''),
               (''value'', getprop_st h state ''value'')]"
    from assms False
    have "merge_st n True True [HBool True, structure, HRef (length h)] (h @ [?literal]) = (r, h')"
      by (simp add: mergeFieldData_st_def recursive_st_def Let_def)
    from merge_st_clone_mode [OF this]
    have t: "take (Suc (length h)) h' = h @ [?literal]"
      and v: "\<forall>v. r = Inr v \<longrightarrow> v = HRef (Suc (length h)) \<and> Suc (length h) < length h'
                   \<and> is_plain (h' ! Suc (length h))"
      and e: "\<forall>e. r = Inl e \<longrightarrow> e = RangeError"
      by simp_all
    from t have "take (length h) (take (Suc (length h)) h') = take (length h) (h @ [?literal])"
      by simp
    then have "take (length h) h' = h" by (simp add: min_def)
    moreover from v have "\<forall>v. r = Inr v \<longrightarrow> v = HRef (Suc (length h)) \<and> typeOf_st h' v = ''object''"
      by auto
    moreover from e False have "(r = Inl TypeError) = (state = HNull \<or> state = HUndefined)"
      by auto
    ultimately show ?thesis by blast
  qed
  have b: "r = Inr (HRef (Suc (length h)))"
    if "rep h structure ts" "wf_shape ts" "rep h state tst" "wf_shape tst"
      "state \<noteq> HNull" "state \<noteq> HUndefined" "height ts < n" "height tst < n"
    using mergeFieldData_st_returns [OF that] assms by auto
  from a b show ?thesis by blast
qed

theorem mergeFieldData_returns_fresh_record_witness:
  "fst (mergeFieldData_st 4 (HRef 3) (HRef 5) demo_store) = Inr (HRef 7)
   \<and> take 6 (snd (mergeFieldData_st 4 (HRef 3) (HRef 5) demo_store)) = demo_store
   \<and> typeOf_st (snd (mergeFieldData_st 4 (HRef 3) (HRef 5) demo_store)) (HRef 7) = ''object''"
proof -
  obtain r h' where m: "mergeFieldData_st 4 (HRef 3) (HRef 5) demo_store = (r, h')"
    by (cases "mergeFieldData_st 4 (HRef 3) (HRef 5) demo_store")
  have l: "length demo_store = 6" by (simp add: demo_store_def)
  have s1: "rep demo_store (HRef 3) demo_structure_shape" by code_simp
  have s2: "wf_shape demo_structure_shape" by code_simp
  have s3: "height demo_structure_shape < 4" by code_simp
  have t1: "rep demo_store (HRef 5) demo_state_shape" by code_simp
  have t2: "wf_shape demo_state_shape" by code_simp
  have t3: "height demo_state_shape < 4" by code_simp
  have n: "HRef 5 \<noteq> HNull" "HRef 5 \<noteq> HUndefined" by simp_all
  from mergeFieldData_returns_fresh_record [OF m, of demo_structure_shape demo_state_shape]
  have "take (length demo_store) h' = demo_store"
    and "\<forall>v. r = Inr v \<longrightarrow> v = HRef (Suc (length demo_store)) \<and> typeOf_st h' v = ''object''"
    and "r = Inr (HRef (Suc (length demo_store)))"
    using s1 s2 s3 t1 t2 t3 n by blast+
  then show ?thesis by (simp add: m l)
qed

text \<open>
  On the sample store the two models of the merge agree: reading back what the store
  model returns gives the value the value model computes from the arguments read back.
  Without the clone flag the same merge writes into an object of its argument.
\<close>

lemma store_and_value_agree:
  "mergeFieldData (readback 5 demo_store (HRef 3)) (readback 5 demo_store (HRef 5))
     = Inr (readback 5 (snd (mergeFieldData_st 10 (HRef 3) (HRef 5) demo_store)) (HRef 7))"
  by code_simp

lemma without_clone_mode_an_argument_is_written:
  "take 6 (snd (recursive_st 10 (HBool False) [HRef 3, HRef 5] demo_store)) \<noteq> demo_store"
  by code_simp

end
